theory Spec2Isabelle
  imports Complex_Main "HOL-Library.Log_Nat"
begin

section \<open>The app icon generator \<^verbatim>\<open>scripts/generate_app_icon.py\<close>\<close>

text \<open>
  The script builds three 1024 by 1024 RGB images (a radial gradient with a dumbbell drawn
  on it) and saves them as PNG files. It computes with Python integers (unbounded, modelled
  as \<open>int\<close>), Python floats (IEEE binary64, modelled below with the rounding written
  out) and the drawing primitives of the imaging library, which is not part of the
  repository.
\<close>

subsection \<open>Python exceptions\<close>

datatype error = ZeroDivisionError | OverflowError | ValueError | IndexError | OSError

text \<open>Sequencing of computations that may raise: the first exception ends the run.\<close>

definition ebind :: "error + 'a \<Rightarrow> ('a \<Rightarrow> error + 'b) \<Rightarrow> error + 'b" where
  "ebind m f = (case m of Inl e \<Rightarrow> Inl e | Inr x \<Rightarrow> f x)"

text \<open>A \<^verbatim>\<open>for i in xs: body\<close> loop over a state, stopping at the first exception.\<close>

fun for_loop :: "'i list \<Rightarrow> ('i \<Rightarrow> 's \<Rightarrow> error + 's) \<Rightarrow> 's \<Rightarrow> error + 's" where
  "for_loop [] body s = Inr s"
| "for_loop (i # rest) body s =
     (case body i s of Inl e \<Rightarrow> Inl e | Inr s' \<Rightarrow> for_loop rest body s')"

text \<open>\<^verbatim>\<open>range(n)\<close> for a non-negative \<open>n\<close>.\<close>

definition py_range :: "nat \<Rightarrow> int list" where
  "py_range n = map int [0..<n]"

subsection \<open>Python floats\<close>

text \<open>
  A float is a finite binary64 number (kept as the rational it denotes), an infinity or a
  NaN. The sign of a zero is not kept: nothing in the script can observe it (a division by
  either zero raises, and \<^verbatim>\<open>int\<close> maps both to 0).
\<close>

datatype pyfloat = Fin rat | PInf | NInf | NaN

definition pow2 :: "int \<Rightarrow> rat" where
  "pow2 k = (if 0 \<le> k then 2 ^ nat k else 1 / 2 ^ nat (- k))"

text \<open>The binary exponent of a positive rational: \<open>2 ^ ilog2 x \<le> x < 2 ^ (ilog2 x + 1)\<close>.\<close>

definition ilog2 :: "rat \<Rightarrow> int" where
  "ilog2 x = (if 1 \<le> x then bitlen \<lfloor>x\<rfloor> - 1 else - bitlen (\<lceil>1 / x\<rceil> - 1))"

text \<open>Rounding to the nearest integer, a tie to the even one.\<close>

definition round_even :: "rat \<Rightarrow> int" where
  "round_even q =
     (let f = \<lfloor>q\<rfloor>; d = q - of_int f
      in if d < 1 / 2 then f else if 1 / 2 < d then f + 1 else if even f then f else f + 1)"

text \<open>
  Rounding to binary64 before the overflow test: 53 significant bits, and the fixed spacing
  \<open>2 ^ - 1074\<close> below \<open>2 ^ - 1022\<close> (the subnormal numbers).
\<close>

definition round_fin :: "rat \<Rightarrow> rat" where
  "round_fin x =
     (if x = 0 then 0
      else let e = max (ilog2 \<bar>x\<bar>) (- 1022); u = pow2 (e - 52)
           in of_int (round_even (x / u)) * u)"

text \<open>
  The IEEE result of an operation whose exact value is \<open>x\<close>: the rounded value, or an
  infinity when its magnitude reaches \<open>2 ^ 1024\<close>.
\<close>

definition rnd :: "rat \<Rightarrow> pyfloat" where
  "rnd x =
     (let y = round_fin x
      in if y = 0 then Fin 0
         else if 1024 \<le> ilog2 \<bar>y\<bar> then (if 0 < y then PInf else NInf)
         else Fin y)"

fun fadd :: "pyfloat \<Rightarrow> pyfloat \<Rightarrow> pyfloat" where
  "fadd (Fin a) (Fin b) = rnd (a + b)"
| "fadd NaN _ = NaN"
| "fadd _ NaN = NaN"
| "fadd PInf NInf = NaN"
| "fadd NInf PInf = NaN"
| "fadd PInf _ = PInf"
| "fadd _ PInf = PInf"
| "fadd NInf _ = NInf"
| "fadd _ NInf = NInf"

fun fmul :: "pyfloat \<Rightarrow> pyfloat \<Rightarrow> pyfloat" where
  "fmul (Fin a) (Fin b) = rnd (a * b)"
| "fmul NaN _ = NaN"
| "fmul _ NaN = NaN"
| "fmul (Fin a) PInf = (if a = 0 then NaN else if 0 < a then PInf else NInf)"
| "fmul (Fin a) NInf = (if a = 0 then NaN else if 0 < a then NInf else PInf)"
| "fmul PInf (Fin b) = (if b = 0 then NaN else if 0 < b then PInf else NInf)"
| "fmul NInf (Fin b) = (if b = 0 then NaN else if 0 < b then NInf else PInf)"
| "fmul PInf PInf = PInf"
| "fmul PInf NInf = NInf"
| "fmul NInf PInf = NInf"
| "fmul NInf NInf = PInf"

text \<open>Float division \<^verbatim>\<open>a / b\<close>: Python raises on a zero divisor before dividing.\<close>

fun fdiv :: "pyfloat \<Rightarrow> pyfloat \<Rightarrow> error + pyfloat" where
  "fdiv (Fin a) (Fin b) = (if b = 0 then Inl ZeroDivisionError else Inr (rnd (a / b)))"
| "fdiv PInf (Fin b) =
     (if b = 0 then Inl ZeroDivisionError else Inr (if 0 < b then PInf else NInf))"
| "fdiv NInf (Fin b) =
     (if b = 0 then Inl ZeroDivisionError else Inr (if 0 < b then NInf else PInf))"
| "fdiv NaN (Fin b) = (if b = 0 then Inl ZeroDivisionError else Inr NaN)"
| "fdiv _ NaN = Inr NaN"
| "fdiv (Fin a) _ = Inr (Fin 0)"
| "fdiv _ _ = Inr NaN"

text \<open>The comparison \<^verbatim>\<open>a < b\<close> of two floats (false when either is a NaN).\<close>

fun flt :: "pyfloat \<Rightarrow> pyfloat \<Rightarrow> bool" where
  "flt (Fin a) (Fin b) = (a < b)"
| "flt NaN _ = False"
| "flt _ NaN = False"
| "flt _ NInf = False"
| "flt PInf _ = False"
| "flt _ _ = True"

text \<open>\<^verbatim>\<open>min(a, b)\<close>: the first argument unless the second is smaller.\<close>

definition py_min :: "pyfloat \<Rightarrow> pyfloat \<Rightarrow> pyfloat" where
  "py_min a b = (if flt b a then b else a)"

text \<open>\<^verbatim>\<open>int(f)\<close>: truncation toward zero; an infinity and a NaN raise.\<close>

fun py_int :: "pyfloat \<Rightarrow> error + int" where
  "py_int (Fin q) = Inr (if 0 \<le> q then \<lfloor>q\<rfloor> else \<lceil>q\<rceil>)"
| "py_int PInf = Inl OverflowError"
| "py_int NInf = Inl OverflowError"
| "py_int NaN = Inl ValueError"

text \<open>
  The conversion of an integer operand in mixed arithmetic (\<^verbatim>\<open>n * f\<close>,
  \<^verbatim>\<open>n + f\<close>, \<^verbatim>\<open>math.sqrt(n)\<close>): correctly rounded, and an
  \<^verbatim>\<open>OverflowError\<close> when the integer is too large for a float.
\<close>

definition float_of_int :: "int \<Rightarrow> error + pyfloat" where
  "float_of_int n = (case rnd (of_int n) of Fin q \<Rightarrow> Inr (Fin q) | _ \<Rightarrow> Inl OverflowError)"

text \<open>True division \<^verbatim>\<open>a / b\<close> of two integers: the correctly rounded quotient.\<close>

definition int_truediv :: "int \<Rightarrow> int \<Rightarrow> error + pyfloat" where
  "int_truediv a b =
     (if b = 0 then Inl ZeroDivisionError
      else case rnd (of_int a / of_int b) of Fin q \<Rightarrow> Inr (Fin q) | _ \<Rightarrow> Inl OverflowError)"

text \<open>Integer square root: the root of \<open>n div 4\<close>, doubled, is the root or one below it.\<close>

definition isqrt_step :: "int \<Rightarrow> int \<Rightarrow> int" where
  "isqrt_step n q = (if (2 * q + 1) * (2 * q + 1) \<le> n then 2 * q + 1 else 2 * q)"

function isqrt :: "int \<Rightarrow> int" where
  "isqrt n = (if n \<le> 0 then 0 else isqrt_step n (isqrt (n div 4)))"
  by pat_completeness auto
termination
  by (relation "measure nat") auto

declare isqrt.simps [simp del]

text \<open>
  A rational that rounds as the square root of \<open>x\<close> does, for \<open>x = 0\<close> and
  \<open>x \<ge> 1\<close>: the root scaled by \<open>2 ^ 54\<close> lies between two consecutive integers
  that are at least \<open>2 ^ 54\<close>, every rounding boundary of binary64 at that magnitude is
  an even integer, so the root and the midpoint of the two integers round alike; an exact
  root is taken as it is.
\<close>

definition sqrt_approx :: "rat \<Rightarrow> rat" where
  "sqrt_approx x =
     (let n = \<lfloor>x * 2 ^ 108\<rfloor>; m = isqrt n
      in if m * m = n then of_int m / 2 ^ 54 else (of_int m + 1 / 2) / 2 ^ 54)"

text \<open>
  \<^verbatim>\<open>math.sqrt(n)\<close> of an integer, the only way the script calls it: the integer is
  converted, a negative argument is a domain error, and the root is correctly rounded.
\<close>

definition math_sqrt :: "int \<Rightarrow> error + pyfloat" where
  "math_sqrt n =
     ebind (float_of_int n) (\<lambda>f. case f of
         Fin x \<Rightarrow> if x < 0 then Inl ValueError else Inr (Fin (round_fin (sqrt_approx x)))
       | _ \<Rightarrow> Inl ValueError)"

subsection \<open>Colours\<close>

type_synonym color = "int \<times> int \<times> int"

text \<open>A colour an RGB image can hold: every channel is an 8-bit intensity.\<close>

definition valid_color :: "color \<Rightarrow> bool" where
  "valid_color c =
     (case c of (r, g, b) \<Rightarrow> 0 \<le> r \<and> r \<le> 255 \<and> 0 \<le> g \<and> g \<le> 255 \<and> 0 \<le> b \<and> b \<le> 255)"

datatype color_name = Background | Card | Primary | Primary_light | Accent | White

fun COLORS :: "color_name \<Rightarrow> color" where
  "COLORS Background = (15, 23, 42)"
| "COLORS Card = (30, 41, 59)"
| "COLORS Primary = (99, 102, 241)"
| "COLORS Primary_light = (129, 140, 248)"
| "COLORS Accent = (34, 211, 238)"
| "COLORS White = (248, 250, 252)"

text \<open>
  The expression \<^verbatim>\<open>int(c1 + (c2 - c1) * ratio)\<close> on one channel: the difference is
  an integer subtraction, the product and the sum are float operations.
\<close>

definition lerp_channel :: "int \<Rightarrow> int \<Rightarrow> pyfloat \<Rightarrow> error + int" where
  "lerp_channel c1 c2 ratio =
     ebind (float_of_int (c2 - c1)) (\<lambda>d.
     ebind (float_of_int c1) (\<lambda>a.
     py_int (fadd a (fmul d ratio))))"

definition interpolate_color :: "color \<Rightarrow> color \<Rightarrow> pyfloat \<Rightarrow> error + color" where
  "interpolate_color color1 color2 ratio =
     (case (color1, color2) of ((r1, g1, b1), (r2, g2, b2)) \<Rightarrow>
        ebind (lerp_channel r1 r2 ratio) (\<lambda>r.
        ebind (lerp_channel g1 g2 ratio) (\<lambda>g.
        ebind (lerp_channel b1 b2 ratio) (\<lambda>b.
        Inr (r, g, b)))))"

text \<open>
  For comparison with the result of \<^verbatim>\<open>interpolate_color\<close>: the float that
  \<^verbatim>\<open>c1 + (c2 - c1) * ratio\<close> evaluates to when nothing overflows, and the
  integer next to a rational in the direction of zero.
\<close>

definition channel_value :: "int \<Rightarrow> int \<Rightarrow> rat \<Rightarrow> rat" where
  "channel_value c1 c2 q = round_fin (of_int c1 + round_fin (of_int (c2 - c1) * q))"

definition toward_zero :: "rat \<Rightarrow> int" where
  "toward_zero v = (if 0 \<le> v then \<lfloor>v\<rfloor> else - \<lfloor>- v\<rfloor>)"

subsection \<open>Images and the drawing primitives of the imaging library\<close>

text \<open>
  An RGB image: its size and the colour of every pixel. Only the pixels inside the size
  are part of the image; the library stores 8-bit channels, so the model agrees with it
  as long as valid colours are written, which is what the theorems below are about.
\<close>

record image =
  width :: nat
  height :: nat
  pixel :: "int \<Rightarrow> int \<Rightarrow> color"

definition in_image :: "image \<Rightarrow> int \<Rightarrow> int \<Rightarrow> bool" where
  "in_image img x y = (0 \<le> x \<and> x < int (width img) \<and> 0 \<le> y \<and> y < int (height img))"

text \<open>\<^verbatim>\<open>Image.new('RGB', (n, n), c)\<close>.\<close>

definition Image_new :: "nat \<Rightarrow> color \<Rightarrow> image" where
  "Image_new n c = \<lparr>width = n, height = n, pixel = (\<lambda>x y. c)\<rparr>"

text \<open>\<^verbatim>\<open>pixels[x, y] = c\<close> on the pixel access object of the image.\<close>

definition putpixel :: "image \<Rightarrow> int \<Rightarrow> int \<Rightarrow> color \<Rightarrow> error + image" where
  "putpixel img x y c =
     (if in_image img x y
      then Inr (img\<lparr>pixel := (\<lambda>u v. if u = x \<and> v = y then c else pixel img u v)\<rparr>)
      else Inl IndexError)"

type_synonym bbox = "int \<times> int \<times> int \<times> int"

definition in_box :: "bbox \<Rightarrow> int \<Rightarrow> int \<Rightarrow> bool" where
  "in_box b x y = (case b of (x0, y0, x1, y1) \<Rightarrow> x0 \<le> x \<and> x \<le> x1 \<and> y0 \<le> y \<and> y \<le> y1)"

text \<open>Filling a set of pixels with one colour; what lies outside the image is clipped.\<close>

definition paint :: "(int \<Rightarrow> int \<Rightarrow> bool) \<Rightarrow> color \<Rightarrow> image \<Rightarrow> image" where
  "paint cover c img =
     img\<lparr>pixel := (\<lambda>x y. if cover x y \<and> in_image img x y then c else pixel img x y)\<rparr>"

text \<open>The library refuses a box whose second corner lies before the first.\<close>

definition reversed :: "bbox \<Rightarrow> bool" where
  "reversed b = (case b of (x0, y0, x1, y1) \<Rightarrow> x1 < x0 \<or> y1 < y0)"

text \<open>
  \<^verbatim>\<open>draw.rectangle(box, fill=c)\<close>: every pixel of the box, both corners included.
\<close>

definition rectangle :: "bbox \<Rightarrow> color \<Rightarrow> image \<Rightarrow> error + image" where
  "rectangle b fill img = (if reversed b then Inl ValueError else Inr (paint (in_box b) fill img))"

text \<open>
  \<^verbatim>\<open>draw.ellipse(box, fill=c)\<close>. Which pixels of the box the library's rasteriser
  fills is not fixed by the script; it is a parameter \<open>ell\<close> of the model, and each
  theorem says what it assumes of it.
\<close>

type_synonym rasteriser = "bbox \<Rightarrow> int \<Rightarrow> int \<Rightarrow> bool"

definition ellipse :: "rasteriser \<Rightarrow> bbox \<Rightarrow> color \<Rightarrow> image \<Rightarrow> error + image" where
  "ellipse ell b fill img = (if reversed b then Inl ValueError else Inr (paint (ell b) fill img))"

text \<open>A rasteriser stays inside the box it is given.\<close>

definition ell_in_box :: "rasteriser \<Rightarrow> bool" where
  "ell_in_box ell = (\<forall>b x y. ell b x y \<longrightarrow> in_box b x y)"

text \<open>A rasteriser leaves the four corner pixels of a box at least three pixels wide and high.\<close>

definition ell_skips_corners :: "rasteriser \<Rightarrow> bool" where
  "ell_skips_corners ell =
     (\<forall>x0 y0 x1 y1. x0 + 2 \<le> x1 \<and> y0 + 2 \<le> y1 \<longrightarrow>
        \<not> ell (x0, y0, x1, y1) x0 y0 \<and> \<not> ell (x0, y0, x1, y1) x1 y0 \<and>
        \<not> ell (x0, y0, x1, y1) x0 y1 \<and> \<not> ell (x0, y0, x1, y1) x1 y1)"

text \<open>
  One such rasteriser, used where a concrete one is needed: the pixels of the box whose
  centre lies in the ellipse inscribed in the box.
\<close>

definition inscribed :: rasteriser where
  "inscribed b x y =
     (case b of (x0, y0, x1, y1) \<Rightarrow>
        in_box b x y \<and>
        (2 * x - x0 - x1) ^ 2 * (y1 - y0) ^ 2 + (2 * y - y0 - y1) ^ 2 * (x1 - x0) ^ 2
          \<le> (x1 - x0) ^ 2 * (y1 - y0) ^ 2)"

text \<open>
  Reading a pixel of the image a computation returns: nothing when it raised or when the
  position is outside the image.
\<close>

definition pixel_of :: "error + image \<Rightarrow> int \<Rightarrow> int \<Rightarrow> color option" where
  "pixel_of res x y =
     (case res of
        Inl e \<Rightarrow> None
      | Inr img \<Rightarrow> if in_image img x y then Some (pixel img x y) else None)"

text \<open>Two images of one size that agree on every pixel outside a box.\<close>

definition same_outside :: "bbox \<Rightarrow> image \<Rightarrow> image \<Rightarrow> bool" where
  "same_outside b img img' =
     (width img' = width img \<and> height img' = height img \<and>
      (\<forall>x y. \<not> in_box b x y \<longrightarrow> pixel img' x y = pixel img x y))"

subsection \<open>The radial gradient\<close>

definition gradient_ratio :: "nat \<Rightarrow> pyfloat \<Rightarrow> int \<Rightarrow> int \<Rightarrow> error + pyfloat" where
  "gradient_ratio n max_dist x y =
     ebind (math_sqrt ((x - int (n div 2)) ^ 2 + (y - int (n div 2)) ^ 2)) (\<lambda>dist.
     ebind (fdiv dist max_dist) (\<lambda>q.
     Inr (py_min q (Fin 1))))"

text \<open>The colour computed for the pixel \<open>(x, y)\<close>, channel by channel.\<close>

definition gradient_color ::
  "nat \<Rightarrow> color \<Rightarrow> color \<Rightarrow> pyfloat \<Rightarrow> int \<Rightarrow> int \<Rightarrow> error + color" where
  "gradient_color n center_color edge_color max_dist x y =
     (case (center_color, edge_color) of ((r0, g0, b0), (r1, g1, b1)) \<Rightarrow>
        ebind (gradient_ratio n max_dist x y) (\<lambda>ratio.
        ebind (lerp_channel r0 r1 ratio) (\<lambda>r.
        ebind (lerp_channel g0 g1 ratio) (\<lambda>g.
        ebind (lerp_channel b0 b1 ratio) (\<lambda>b.
        Inr (r, g, b))))))"

text \<open>The body of the inner loop, for the row \<open>y\<close> and the column \<open>x\<close>.\<close>

definition gradient_pixel ::
  "nat \<Rightarrow> color \<Rightarrow> color \<Rightarrow> pyfloat \<Rightarrow> int \<Rightarrow> int \<Rightarrow> image \<Rightarrow> error + image" where
  "gradient_pixel n center_color edge_color max_dist y x img =
     ebind (gradient_color n center_color edge_color max_dist x y) (putpixel img x y)"

definition max_dist_of :: "nat \<Rightarrow> error + pyfloat" where
  "max_dist_of n =
     ebind (math_sqrt 2) (\<lambda>s2.
     ebind (float_of_int (int (n div 2))) (\<lambda>h.
     Inr (fmul s2 h)))"

definition create_radial_gradient :: "nat \<Rightarrow> color \<Rightarrow> color \<Rightarrow> error + image" where
  "create_radial_gradient n center_color edge_color =
     ebind (max_dist_of n) (\<lambda>max_dist.
     for_loop (py_range n)
       (\<lambda>y. for_loop (py_range n) (gradient_pixel n center_color edge_color max_dist y))
       (Image_new n center_color))"

subsection \<open>Rounded rectangles and the dumbbell\<close>

definition draw_rounded_rect ::
  "rasteriser \<Rightarrow> bbox \<Rightarrow> int \<Rightarrow> color \<Rightarrow> image \<Rightarrow> error + image" where
  "draw_rounded_rect ell bbox radius fill img =
     (case bbox of (x1, y1, x2, y2) \<Rightarrow>
        ebind (rectangle (x1 + radius, y1, x2 - radius, y2) fill img) (\<lambda>img.
        ebind (rectangle (x1, y1 + radius, x2, y2 - radius) fill img) (\<lambda>img.
        ebind (ellipse ell (x1, y1, x1 + 2 * radius, y1 + 2 * radius) fill img) (\<lambda>img.
        ebind (ellipse ell (x2 - 2 * radius, y1, x2, y1 + 2 * radius) fill img) (\<lambda>img.
        ebind (ellipse ell (x1, y2 - 2 * radius, x1 + 2 * radius, y2) fill img) (\<lambda>img.
        ellipse ell (x2 - 2 * radius, y2 - 2 * radius, x2, y2) fill img))))))"

text \<open>
  The pixels a rounded rectangle covers: the two bands and the four corner ellipses.
\<close>

definition rounded_cover :: "rasteriser \<Rightarrow> bbox \<Rightarrow> int \<Rightarrow> int \<Rightarrow> int \<Rightarrow> bool" where
  "rounded_cover ell bbox radius x y =
     (case bbox of (x1, y1, x2, y2) \<Rightarrow>
        in_box (x1 + radius, y1, x2 - radius, y2) x y \<or>
        in_box (x1, y1 + radius, x2, y2 - radius) x y \<or>
        ell (x1, y1, x1 + 2 * radius, y1 + 2 * radius) x y \<or>
        ell (x2 - 2 * radius, y1, x2, y1 + 2 * radius) x y \<or>
        ell (x1, y2 - 2 * radius, x1 + 2 * radius, y2) x y \<or>
        ell (x2 - 2 * radius, y2 - 2 * radius, x2, y2) x y)"

definition SIZE :: nat where
  "SIZE = 1024"

definition CENTER :: int where
  "CENTER = int (SIZE div 2)"

text \<open>The local constants of \<^verbatim>\<open>draw_dumbbell\<close>.\<close>

definition bar_height :: int where
  "bar_height = 60"

definition bar_width :: int where
  "bar_width = 400"

definition weight_width :: int where
  "weight_width = 120"

definition weight_height :: int where
  "weight_height = 280"

definition weight_radius :: int where
  "weight_radius = 30"

definition bar_left :: int where
  "bar_left = CENTER - bar_width div 2"

definition bar_top :: int where
  "bar_top = CENTER - bar_height div 2"

definition left_weight_left :: int where
  "left_weight_left = bar_left - 20"

definition left_weight_right :: int where
  "left_weight_right = left_weight_left + weight_width"

definition weight_top :: int where
  "weight_top = CENTER - weight_height div 2"

definition weight_bottom :: int where
  "weight_bottom = CENTER + weight_height div 2"

definition right_weight_right :: int where
  "right_weight_right = CENTER + bar_width div 2 + 20"

definition right_weight_left :: int where
  "right_weight_left = right_weight_right - weight_width"

definition inner_margin :: int where
  "inner_margin = 20"

definition bar_segments :: nat where
  "bar_segments = 20"

text \<open>
  The body of the bar loop for segment \<open>i\<close>. The two horizontal coordinates are floats;
  the library truncates them to integers.
\<close>

definition bar_segment :: "color \<Rightarrow> color \<Rightarrow> pyfloat \<Rightarrow> int \<Rightarrow> image \<Rightarrow> error + image" where
  "bar_segment primary_color accent_color segment_width i img =
     ebind (int_truediv i (int bar_segments - 1)) (\<lambda>ratio.
     ebind (interpolate_color primary_color accent_color ratio) (\<lambda>color.
     ebind (float_of_int i) (\<lambda>fi.
     ebind (float_of_int bar_left) (\<lambda>fl.
     ebind (float_of_int (i + 1)) (\<lambda>fi1.
     ebind (float_of_int 1) (\<lambda>one.
     ebind (py_int (fadd fl (fmul fi segment_width))) (\<lambda>seg_left.
     ebind (py_int (fadd (fadd fl (fmul fi1 segment_width)) one)) (\<lambda>seg_right.
     rectangle (seg_left, bar_top, seg_right, bar_top + bar_height) color img))))))))"

definition draw_bar :: "color \<Rightarrow> color \<Rightarrow> image \<Rightarrow> error + image" where
  "draw_bar primary_color accent_color img =
     ebind (int_truediv bar_width (int bar_segments)) (\<lambda>segment_width.
     for_loop (py_range bar_segments) (bar_segment primary_color accent_color segment_width) img)"

text \<open>The float literals \<^verbatim>\<open>0.3\<close> and \<^verbatim>\<open>0.2\<close> are the nearest floats.\<close>

definition draw_dumbbell :: "rasteriser \<Rightarrow> image \<Rightarrow> color \<Rightarrow> color \<Rightarrow> error + image" where
  "draw_dumbbell ell img primary_color accent_color =
     ebind (draw_rounded_rect ell
         (left_weight_left, weight_top, left_weight_right, weight_bottom)
         weight_radius primary_color img) (\<lambda>img.
     ebind (interpolate_color primary_color (COLORS Primary_light) (rnd (3 / 10))) (\<lambda>c.
     ebind (draw_rounded_rect ell
         (left_weight_left + inner_margin, weight_top + inner_margin,
          left_weight_right - inner_margin, weight_bottom - inner_margin)
         (weight_radius - 10) c img) (\<lambda>img.
     ebind (draw_bar primary_color accent_color img) (\<lambda>img.
     ebind (draw_rounded_rect ell
         (right_weight_left, weight_top, right_weight_right, weight_bottom)
         weight_radius accent_color img) (\<lambda>img.
     ebind (interpolate_color accent_color (COLORS White) (rnd (1 / 5))) (\<lambda>c.
     draw_rounded_rect ell
         (right_weight_left + inner_margin, weight_top + inner_margin,
          right_weight_right - inner_margin, weight_bottom - inner_margin)
         (weight_radius - 10) c img))))))"

subsection \<open>The three variants\<close>

definition generate_main_icon :: "rasteriser \<Rightarrow> error + image" where
  "generate_main_icon ell =
     ebind (create_radial_gradient SIZE (COLORS Card) (COLORS Background)) (\<lambda>img.
     draw_dumbbell ell img (COLORS Primary) (COLORS Accent))"

definition generate_dark_icon :: "rasteriser \<Rightarrow> error + image" where
  "generate_dark_icon ell =
     ebind (create_radial_gradient SIZE (20, 30, 50) (10, 15, 30)) (\<lambda>img.
     draw_dumbbell ell img (COLORS Primary_light) (COLORS Accent))"

definition generate_tinted_icon :: "rasteriser \<Rightarrow> error + image" where
  "generate_tinted_icon ell =
     ebind (create_radial_gradient SIZE (60, 60, 60) (30, 30, 30)) (\<lambda>img.
     draw_dumbbell ell img (180, 180, 180) (220, 220, 220))"

subsection \<open>The file system and \<^verbatim>\<open>main\<close>\<close>

text \<open>
  A path is the list of its components. The world the script acts on: the directories and
  files on disk and the lines printed so far. A file holds the bytes last written to it.
\<close>

type_synonym path = "string list"

record world =
  dirs :: "path set"
  files :: "path \<Rightarrow> string option"
  stdout :: "string list"

text \<open>
  What the script does not decide: where it is installed, whether the directory can be
  created, and whether a write succeeds. A failed write leaves at the path what the
  operating system left there (no file, a truncated file, or the file of before).
\<close>

datatype write_result = Written | Write_failed "string option"

record env =
  script_file :: path
  makedirs_fails :: bool
  write_result_of :: "path \<Rightarrow> write_result"

text \<open>A step of \<^verbatim>\<open>main\<close>: it changes the world, and returns a value or raises.\<close>

definition wbind ::
  "world \<times> (error + 'a) \<Rightarrow> ('a \<Rightarrow> world \<Rightarrow> world \<times> (error + 'b)) \<Rightarrow> world \<times> (error + 'b)" where
  "wbind m f = (case m of (w, Inl e) \<Rightarrow> (w, Inl e) | (w, Inr x) \<Rightarrow> f x w)"

definition py_print :: "string \<Rightarrow> world \<Rightarrow> world \<times> (error + unit)" where
  "py_print line w = (w\<lparr>stdout := stdout w @ [line]\<rparr>, Inr ())"

definition dirname :: "path \<Rightarrow> path" where
  "dirname p = butlast p"

definition show_path :: "path \<Rightarrow> string" where
  "show_path p = concat (map (\<lambda>c. CHR ''/'' # c) p)"

text \<open>\<^verbatim>\<open>os.makedirs(d, exist_ok=True)\<close>: the directory and every missing parent.\<close>

definition makedirs :: "env \<Rightarrow> path \<Rightarrow> world \<Rightarrow> world \<times> (error + unit)" where
  "makedirs e d w =
     (if makedirs_fails e then (w, Inl OSError)
      else (w\<lparr>dirs := dirs w \<union> {take k d |k. k \<le> length d}\<rparr>, Inr ()))"

text \<open>
  \<^verbatim>\<open>img.save(p, 'PNG')\<close>, with the encoder of the library as the parameter
  \<open>encode\<close>.
\<close>

definition image_save ::
  "(image \<Rightarrow> string) \<Rightarrow> env \<Rightarrow> image \<Rightarrow> path \<Rightarrow> world \<Rightarrow> world \<times> (error + unit)" where
  "image_save encode e img p w =
     (case write_result_of e p of
        Written \<Rightarrow> (w\<lparr>files := (files w)(p := Some (encode img))\<rparr>, Inr ())
      | Write_failed left \<Rightarrow> (w\<lparr>files := (files w)(p := left)\<rparr>, Inl OSError))"

definition output_dir :: "env \<Rightarrow> path" where
  "output_dir e =
     dirname (dirname (script_file e)) @
       [''gymtrackpromax'', ''Assets.xcassets'', ''AppIcon.appiconset'']"

definition main :: "rasteriser \<Rightarrow> (image \<Rightarrow> string) \<Rightarrow> env \<Rightarrow> world \<Rightarrow> world \<times> (error + unit)" where
  "main ell encode e w =
     wbind (py_print (''Output directory: '' @ show_path (output_dir e)) w) (\<lambda>_ w.
     wbind (makedirs e (output_dir e) w) (\<lambda>_ w.
     wbind (py_print ''Generating main icon...'' w) (\<lambda>_ w.
     wbind (w, generate_main_icon ell) (\<lambda>main_icon w.
     wbind (image_save encode e main_icon (output_dir e @ [''AppIcon.png'']) w) (\<lambda>_ w.
     wbind (py_print ''  Saved AppIcon.png'' w) (\<lambda>_ w.
     wbind (py_print ''Generating dark mode icon...'' w) (\<lambda>_ w.
     wbind (w, generate_dark_icon ell) (\<lambda>dark_icon w.
     wbind (image_save encode e dark_icon (output_dir e @ [''AppIcon-Dark.png'']) w) (\<lambda>_ w.
     wbind (py_print ''  Saved AppIcon-Dark.png'' w) (\<lambda>_ w.
     wbind (py_print ''Generating tinted icon...'' w) (\<lambda>_ w.
     wbind (w, generate_tinted_icon ell) (\<lambda>tinted_icon w.
     wbind (image_save encode e tinted_icon (output_dir e @ [''AppIcon-Tinted.png'']) w) (\<lambda>_ w.
     wbind (py_print ''  Saved AppIcon-Tinted.png'' w) (\<lambda>_ w.
     wbind (py_print (CHR 0x0A # ''All icons generated successfully!'') w) (\<lambda>_ w.
     py_print (''Icons saved to: '' @ show_path (output_dir e)) w)))))))))))))))"

text \<open>
  An installation of the script at \<^verbatim>\<open>/repo/scripts/generate_app_icon.py\<close> on which the
  write of the dark icon fails and leaves no file, an empty disk, and an encoder that keeps
  the colour of the pixel in the middle of the image.
\<close>

definition example_env :: env where
  "example_env =
     \<lparr>script_file = [''repo'', ''scripts'', ''generate_app_icon.py''],
      makedirs_fails = False,
      write_result_of = (\<lambda>p. if last p = ''AppIcon-Dark.png'' then Write_failed None else Written)\<rparr>"

definition empty_world :: world where
  "empty_world = \<lparr>dirs = {}, files = (\<lambda>p. None), stdout = []\<rparr>"

definition centre_encoding :: "image \<Rightarrow> string" where
  "centre_encoding img = (case pixel img 512 512 of (r, g, b) \<Rightarrow> map (\<lambda>c. char_of (nat c)) [r, g, b])"

section \<open>Properties of the float operations\<close>

subsection \<open>Powers of two and the binary exponent\<close>

lemma pow2_pos: "0 < pow2 k"
  by (simp add: pow2_def)

lemma pow2_powi: "pow2 k = 2 powi k"
  by (simp add: pow2_def power_int_def power_one_over)

lemma pow2_add: "pow2 (a + b) = pow2 a * pow2 b"
  by (simp add: pow2_powi power_int_add)

lemma pow2_mono: "a \<le> b \<Longrightarrow> pow2 a \<le> pow2 b"
  by (simp add: pow2_powi power_int_increasing)

lemma pow2_strict_mono: "a < b \<Longrightarrow> pow2 a < pow2 b"
  by (simp add: pow2_powi power_int_strict_increasing)

lemma pow2_nat: "0 \<le> k \<Longrightarrow> pow2 k = 2 ^ nat k"
  by (simp add: pow2_def)

lemma pow2_div: "pow2 a / pow2 b = pow2 (a - b)"
proof -
  have "pow2 (a - b) * pow2 b = pow2 a"
    using pow2_add [of "a - b" b] by simp
  moreover have "pow2 b \<noteq> 0"
    using pow2_pos [of b] by simp
  ultimately show ?thesis
    by (simp add: field_simps)
qed

lemma ilog2_bounds:
  assumes "0 < x"
  shows "pow2 (ilog2 x) \<le> x \<and> x < pow2 (ilog2 x + 1)"
proof (cases "1 \<le> x")
  case True
  define m where "m = \<lfloor>x\<rfloor>"
  have m: "0 < m"
    using True by (simp add: m_def)
  have e: "ilog2 x = bitlen m - 1"
    using True by (simp add: ilog2_def m_def)
  have b: "1 \<le> bitlen m"
    using m bitlen_eq_zero_iff [of m] bitlen_nonneg [of m] by linarith
  from bitlen_bounds [OF m] have lo: "2 ^ nat (bitlen m - 1) \<le> m" and hi: "m < 2 ^ nat (bitlen m)"
    by simp_all
  have "(of_int (2 ^ nat (bitlen m - 1)) :: rat) \<le> of_int m"
    using lo by (simp only: of_int_le_iff)
  also have "\<dots> \<le> x"
    by (simp add: m_def)
  finally have 1: "pow2 (ilog2 x) \<le> x"
    using b by (simp add: e pow2_nat)
  have "m + 1 \<le> 2 ^ nat (bitlen m)"
    using hi by simp
  then have "(of_int (m + 1) :: rat) \<le> of_int (2 ^ nat (bitlen m))"
    by (simp only: of_int_le_iff)
  moreover have "x < of_int (m + 1)"
    unfolding m_def by simp linarith
  ultimately have 2: "x < pow2 (ilog2 x + 1)"
    using b by (simp add: e pow2_nat)
  from 1 2 show ?thesis ..
next
  case False
  define y where "y = 1 / x"
  define m where "m = \<lceil>y\<rceil> - 1"
  have y: "1 < y"
    using False assms by (simp add: y_def)
  have x: "x = 1 / y"
    using assms by (simp add: y_def)
  have m: "0 < m"
    using y by (simp add: m_def less_ceiling_iff)
  have e: "ilog2 x = - bitlen m"
    using False by (simp add: ilog2_def m_def y_def)
  have b: "1 \<le> bitlen m"
    using m bitlen_eq_zero_iff [of m] bitlen_nonneg [of m] by linarith
  from bitlen_bounds [OF m] have lo: "2 ^ nat (bitlen m - 1) \<le> m" and hi: "m < 2 ^ nat (bitlen m)"
    by simp_all
  have "y \<le> of_int (m + 1)"
    by (simp add: m_def)
  also have "(of_int (m + 1) :: rat) \<le> of_int (2 ^ nat (bitlen m))"
    using hi by (simp only: of_int_le_iff)
  finally have yle: "y \<le> 2 ^ nat (bitlen m)"
    by simp
  have "(1::rat) / 2 ^ nat (bitlen m) \<le> 1 / y"
    using yle y by (intro divide_left_mono) simp_all
  moreover have "pow2 (ilog2 x) = 1 / 2 ^ nat (bitlen m)"
    using b by (simp add: e pow2_def)
  ultimately have 1: "pow2 (ilog2 x) \<le> x"
    by (simp only: x [symmetric])
  have "(2 ^ nat (bitlen m - 1) :: rat) = of_int (2 ^ nat (bitlen m - 1))"
    by simp
  also have "\<dots> \<le> of_int m"
    using lo by (simp only: of_int_le_iff)
  also have "of_int m < y"
    by (simp add: m_def) linarith
  finally have ylt: "2 ^ nat (bitlen m - 1) < y" .
  have "1 / y < (1::rat) / 2 ^ nat (bitlen m - 1)"
    using ylt y by (intro divide_strict_left_mono) simp_all
  moreover have "pow2 (ilog2 x + 1) = 1 / 2 ^ nat (bitlen m - 1)"
    using b by (auto simp add: e pow2_def)
  ultimately have 2: "x < pow2 (ilog2 x + 1)"
    by (simp only: x [symmetric])
  from 1 2 show ?thesis ..
qed

lemma ilog2_unique:
  assumes "pow2 e \<le> x" and "x < pow2 (e + 1)"
  shows "ilog2 x = e"
proof -
  have x: "0 < x"
    using assms(1) pow2_pos [of e] by linarith
  note b = ilog2_bounds [OF x]
  have "\<not> ilog2 x < e"
  proof
    assume "ilog2 x < e"
    then have "pow2 (ilog2 x + 1) \<le> pow2 e"
      by (intro pow2_mono) simp
    with b assms show False by linarith
  qed
  moreover have "\<not> e < ilog2 x"
  proof
    assume "e < ilog2 x"
    then have "pow2 (e + 1) \<le> pow2 (ilog2 x)"
      by (intro pow2_mono) simp
    with b assms show False by linarith
  qed
  ultimately show ?thesis by linarith
qed

lemma ilog2_pow2: "ilog2 (pow2 k) = k"
  by (rule ilog2_unique) (simp_all add: pow2_strict_mono)

lemma ilog2_mono:
  assumes "0 < x" and "x \<le> y"
  shows "ilog2 x \<le> ilog2 y"
proof (rule ccontr)
  assume "\<not> ilog2 x \<le> ilog2 y"
  then have "pow2 (ilog2 y + 1) \<le> pow2 (ilog2 x)"
    by (intro pow2_mono) simp
  moreover have "0 < y" using assms by linarith
  ultimately show False
    using ilog2_bounds [OF assms(1)] ilog2_bounds [OF \<open>0 < y\<close>] assms(2) by linarith
qed

lemma round_even_bounds:
  "of_int (round_even q) - 1 / 2 \<le> q \<and> q \<le> of_int (round_even q) + 1 / 2"
proof -
  have 1: "of_int \<lfloor>q\<rfloor> \<le> q" and 2: "q < of_int \<lfloor>q\<rfloor> + 1"
    by linarith+
  show ?thesis
  proof (cases "q - of_int \<lfloor>q\<rfloor> < 1 / 2")
    case True
    then have "round_even q = \<lfloor>q\<rfloor>"
      by (simp add: round_even_def Let_def)
    with 1 True show ?thesis by (simp; linarith)
  next
    case False
    show ?thesis
    proof (cases "1 / 2 < q - of_int \<lfloor>q\<rfloor>")
      case True
      with False have "round_even q = \<lfloor>q\<rfloor> + 1"
        by (simp add: round_even_def Let_def)
      with 2 True show ?thesis by (simp; linarith)
    next
      case nt: False
      with False have h: "q - of_int \<lfloor>q\<rfloor> = 1 / 2"
        by linarith
      have "round_even q = \<lfloor>q\<rfloor> \<or> round_even q = \<lfloor>q\<rfloor> + 1"
        by (simp add: round_even_def Let_def)
      with h show ?thesis
        by (elim disjE) (simp; linarith)+
    qed
  qed
qed

lemma round_even_mono:
  assumes "a \<le> b"
  shows "round_even a \<le> round_even b"
proof (rule ccontr)
  assume "\<not> round_even a \<le> round_even b"
  then have "round_even b + 1 \<le> round_even a"
    by simp
  then have "(of_int (round_even b + 1) :: rat) \<le> of_int (round_even a)"
    by (simp only: of_int_le_iff)
  then have "(of_int (round_even b) :: rat) + 1 \<le> of_int (round_even a)"
    by simp
  with round_even_bounds [of a] round_even_bounds [of b] assms have "a = b"
    by linarith
  with \<open>\<not> round_even a \<le> round_even b\<close> show False
    by simp
qed

lemma round_even_of_int: "round_even (of_int n) = n"
  by (simp add: round_even_def)

lemma round_even_minus: "round_even (- q) = - round_even q"
proof (cases "q = of_int \<lfloor>q\<rfloor>")
  case True
  then obtain n where "q = of_int n" ..
  then show ?thesis
    using round_even_of_int [of n] round_even_of_int [of "- n"] by simp
next
  case False
  have "\<lfloor>- q\<rfloor> = - \<lceil>q\<rceil>"
    by (simp add: ceiling_def)
  also have "\<lceil>q\<rceil> = \<lfloor>q\<rfloor> + 1"
    using False by (simp add: ceiling_altdef)
  finally have fl: "\<lfloor>- q\<rfloor> = - \<lfloor>q\<rfloor> - 1"
    by simp
  define f where "f = \<lfloor>q\<rfloor>"
  define d where "d = q - of_int f"
  have d': "- q - of_int (- f - 1) = 1 - d"
    by (simp add: d_def)
  have re: "round_even q = (if d < 1 / 2 then f else if 1 / 2 < d then f + 1 else if even f then f else f + 1)"
    by (simp add: round_even_def Let_def f_def d_def)
  have re': "round_even (- q) = (if 1 - d < 1 / 2 then - f - 1 else if 1 / 2 < 1 - d then - f - 1 + 1
      else if even (- f - 1) then - f - 1 else - f - 1 + 1)"
    unfolding round_even_def Let_def fl f_def [symmetric] d' ..
  consider "d < 1 / 2" | "1 / 2 < d" | "d = 1 / 2"
    by linarith
  then show ?thesis
  proof cases
    case 1
    then show ?thesis unfolding re re' by simp
  next
    case 2
    then show ?thesis unfolding re re' by simp
  next
    case 3
    then show ?thesis unfolding re re' by simp
  qed
qed

subsection \<open>Rounding is monotone and exact on small integers\<close>

lemma round_fin_minus: "round_fin (- x) = - round_fin x"
  by (simp add: round_fin_def Let_def round_even_minus)

lemma round_fin_0: "round_fin 0 = 0"
  by (simp add: round_fin_def)

lemma round_even_pow2: "0 \<le> k \<Longrightarrow> of_int (round_even (pow2 k)) = pow2 k"
proof -
  assume "0 \<le> k"
  then have "pow2 k = of_int (2 ^ nat k)"
    by (simp add: pow2_nat)
  then show ?thesis
    by (simp only: round_even_of_int)
qed

lemma round_fin_upper:
  assumes "0 < x"
  shows "round_fin x \<le> pow2 (max (ilog2 x) (- 1022) + 1)"
proof -
  define E where "E = max (ilog2 x) (- 1022)"
  define u where "u = pow2 (E - 52)"
  have u: "0 < u"
    by (simp add: u_def pow2_pos)
  have rf: "round_fin x = of_int (round_even (x / u)) * u"
    using assms by (simp add: round_fin_def Let_def E_def u_def)
  have "x < pow2 (ilog2 x + 1)"
    using ilog2_bounds [OF assms] by simp
  also have "\<dots> \<le> pow2 (E + 1)"
    by (rule pow2_mono) (simp add: E_def)
  finally have "x / u \<le> pow2 (E + 1) / u"
    using u by (simp add: divide_right_mono)
  also have "pow2 (E + 1) / u = pow2 53"
    by (simp add: u_def pow2_div)
  finally have "round_even (x / u) \<le> round_even (pow2 53)"
    by (rule round_even_mono)
  then have "(of_int (round_even (x / u)) :: rat) \<le> of_int (round_even (pow2 53))"
    by (simp only: of_int_le_iff)
  also have "\<dots> = pow2 53"
    by (rule round_even_pow2) simp
  finally have "of_int (round_even (x / u)) * u \<le> pow2 53 * u"
    using u by (simp add: mult_right_mono)
  also have "pow2 53 * u = pow2 (E + 1)"
    using pow2_add [of 53 "E - 52"] by (simp add: u_def add.commute)
  finally show ?thesis
    by (simp add: rf E_def)
qed

lemma round_fin_lower:
  assumes "0 < x" and "- 1022 \<le> ilog2 x"
  shows "pow2 (ilog2 x) \<le> round_fin x"
proof -
  define E where "E = ilog2 x"
  define u where "u = pow2 (E - 52)"
  have u: "0 < u"
    by (simp add: u_def pow2_pos)
  have rf: "round_fin x = of_int (round_even (x / u)) * u"
    using assms by (simp add: round_fin_def Let_def E_def u_def max_def)
  have "pow2 E \<le> x"
    using ilog2_bounds [OF assms(1)] by (simp add: E_def)
  then have "pow2 E / u \<le> x / u"
    using u by (simp add: divide_right_mono)
  moreover have "pow2 E / u = pow2 52"
    by (simp add: u_def pow2_div)
  ultimately have "pow2 52 \<le> x / u"
    by simp
  then have "round_even (pow2 52) \<le> round_even (x / u)"
    by (rule round_even_mono)
  then have "(of_int (round_even (pow2 52)) :: rat) \<le> of_int (round_even (x / u))"
    by (simp only: of_int_le_iff)
  moreover have "of_int (round_even (pow2 52)) = pow2 52"
    by (rule round_even_pow2) simp
  ultimately have "pow2 52 * u \<le> of_int (round_even (x / u)) * u"
    using u by (simp add: mult_right_mono)
  moreover have "pow2 52 * u = pow2 E"
    using pow2_add [of 52 "E - 52"] by (simp add: u_def)
  ultimately show ?thesis
    by (simp add: rf E_def)
qed

lemma round_fin_nonneg:
  assumes "0 \<le> x"
  shows "0 \<le> round_fin x"
proof (cases "x = 0")
  case True
  then show ?thesis by (simp add: round_fin_0)
next
  case False
  define u where "u = pow2 (max (ilog2 \<bar>x\<bar>) (- 1022) - 52)"
  have u: "0 < u"
    by (simp add: u_def pow2_pos)
  have rf: "round_fin x = of_int (round_even (x / u)) * u"
    using False by (simp add: round_fin_def Let_def u_def)
  have "0 \<le> x / u"
    using assms u by simp
  then have "round_even 0 \<le> round_even (x / u)"
    by (rule round_even_mono)
  moreover have "round_even 0 = 0"
    using round_even_of_int [of 0] by simp
  ultimately have "(0::rat) \<le> of_int (round_even (x / u))"
    by simp
  then show ?thesis
    using u by (simp add: rf)
qed

lemma round_fin_mono_pos:
  assumes "0 < x" and "x \<le> y"
  shows "round_fin x \<le> round_fin y"
proof -
  have y: "0 < y"
    using assms by linarith
  define Ex where "Ex = max (ilog2 x) (- 1022)"
  define Ey where "Ey = max (ilog2 y) (- 1022)"
  have le: "Ex \<le> Ey"
    using ilog2_mono [OF assms] by (simp add: Ex_def Ey_def)
  show ?thesis
  proof (cases "Ex = Ey")
    case True
    define u where "u = pow2 (Ex - 52)"
    have u: "0 < u"
      by (simp add: u_def pow2_pos)
    have rx: "round_fin x = of_int (round_even (x / u)) * u"
      using assms by (simp add: round_fin_def Let_def Ex_def u_def)
    have ry: "round_fin y = of_int (round_even (y / u)) * u"
      using y True by (simp add: round_fin_def Let_def Ex_def Ey_def u_def)
    have "x / u \<le> y / u"
      using assms u by (simp add: divide_right_mono)
    then have "round_even (x / u) \<le> round_even (y / u)"
      by (rule round_even_mono)
    then have "(of_int (round_even (x / u)) :: rat) \<le> of_int (round_even (y / u))"
      by (simp only: of_int_le_iff)
    then show ?thesis
      using u by (simp add: rx ry mult_right_mono)
  next
    case False
    with le have lt: "Ex < Ey"
      by simp
    then have ey: "Ey = ilog2 y" and big: "- 1022 \<le> ilog2 y"
      by (auto simp add: Ex_def Ey_def max_def split: if_splits)
    have "round_fin x \<le> pow2 (Ex + 1)"
      using round_fin_upper [OF assms(1)] by (simp add: Ex_def)
    also have "\<dots> \<le> pow2 Ey"
      using lt by (intro pow2_mono) simp
    also have "\<dots> \<le> round_fin y"
      using round_fin_lower [OF y big] by (simp add: ey)
    finally show ?thesis .
  qed
qed

lemma round_fin_mono:
  assumes "x \<le> y"
  shows "round_fin x \<le> round_fin y"
proof -
  consider "0 < x" | "x \<le> 0" "0 \<le> y" | "y < 0"
    using assms by linarith
  then show ?thesis
  proof cases
    case 1
    then show ?thesis using assms by (rule round_fin_mono_pos)
  next
    case 2
    have "round_fin x = - round_fin (- x)"
      by (simp add: round_fin_minus)
    moreover have "0 \<le> round_fin (- x)"
      using 2 by (intro round_fin_nonneg) simp
    moreover have "0 \<le> round_fin y"
      using 2 by (intro round_fin_nonneg)
    ultimately show ?thesis by linarith
  next
    case 3
    have "round_fin (- y) \<le> round_fin (- x)"
      using 3 assms by (intro round_fin_mono_pos) simp_all
    then show ?thesis
      by (simp add: round_fin_minus)
  qed
qed

lemma round_fin_exact:
  assumes "x \<noteq> 0" and "x / pow2 (max (ilog2 \<bar>x\<bar>) (- 1022) - 52) = of_int k"
  shows "round_fin x = x"
proof -
  define u where "u = pow2 (max (ilog2 \<bar>x\<bar>) (- 1022) - 52)"
  have u: "u \<noteq> 0"
    using pow2_pos [of "max (ilog2 \<bar>x\<bar>) (- 1022) - 52"] by (simp add: u_def)
  have "round_fin x = of_int (round_even (x / u)) * u"
    using assms(1) by (simp add: round_fin_def Let_def u_def)
  also have "x / u = of_int k"
    using assms(2) by (simp add: u_def)
  also have "of_int (round_even (of_int k)) * u = of_int k * u"
    by (simp only: round_even_of_int)
  also have "of_int k * u = x"
    using assms(2) u by (simp add: u_def [symmetric] field_simps)
  finally show ?thesis .
qed

lemma round_fin_pow2:
  assumes "- 1022 \<le> k"
  shows "round_fin (pow2 k) = pow2 k"
proof (rule round_fin_exact)
  show "pow2 k \<noteq> 0"
    using pow2_pos [of k] by simp
  have "\<bar>pow2 k\<bar> = pow2 k"
    using pow2_pos [of k] by simp
  then have "pow2 k / pow2 (max (ilog2 \<bar>pow2 k\<bar>) (- 1022) - 52) = pow2 52"
    using assms by (simp add: ilog2_pow2 max_def pow2_div)
  also have "\<dots> = of_int (2 ^ 52)"
    by (simp add: pow2_def)
  finally show "pow2 k / pow2 (max (ilog2 \<bar>pow2 k\<bar>) (- 1022) - 52) = of_int (2 ^ 52)" .
qed

lemma round_fin_of_int:
  assumes "\<bar>n\<bar> \<le> 2 ^ 53"
  shows "round_fin (of_int n) = of_int n"
proof -
  have pos: "round_fin (of_int m) = of_int m" if "0 < m" "m \<le> 2 ^ 53" for m :: int
  proof -
    define x :: rat where "x = of_int m"
    have "(of_int m :: rat) \<le> of_int (2 ^ 53)"
      using that by (simp only: of_int_le_iff)
    then have x: "1 \<le> x" "x \<le> pow2 53"
      using that by (simp_all add: x_def pow2_def)
    have "0 < x" using x by linarith
    define e where "e = ilog2 x"
    have e0: "0 \<le> e"
      using ilog2_mono [of 1 x] x ilog2_pow2 [of 0] by (simp add: e_def pow2_def)
    have e53: "e \<le> 53"
      using ilog2_mono [OF \<open>0 < x\<close> x(2)] by (simp add: e_def ilog2_pow2)
    show ?thesis
    proof (cases "e = 53")
      case True
      then have "pow2 53 \<le> x"
        using ilog2_bounds [OF \<open>0 < x\<close>] by (simp add: e_def)
      with x have "x = pow2 53" by simp
      then show ?thesis
        using round_fin_pow2 [of 53] by (simp add: x_def)
    next
      case False
      with e53 have e52: "e \<le> 52" by simp
      show ?thesis
        unfolding x_def [symmetric]
      proof (rule round_fin_exact)
        show "x \<noteq> 0" using \<open>0 < x\<close> by simp
        have "\<bar>x\<bar> = x" using \<open>0 < x\<close> by simp
        then have "pow2 (max (ilog2 \<bar>x\<bar>) (- 1022) - 52) = pow2 (e - 52)"
          using e0 by (simp add: e_def max_def)
        also have "\<dots> = 1 / 2 ^ nat (52 - e)"
          using e52 by (auto simp add: pow2_def)
        finally show "x / pow2 (max (ilog2 \<bar>x\<bar>) (- 1022) - 52) = of_int (m * 2 ^ nat (52 - e))"
          by (simp add: x_def)
      qed
    qed
  qed
  consider "n = 0" | "0 < n" | "n < 0" by linarith
  then show ?thesis
  proof cases
    case 1
    then show ?thesis by (simp add: round_fin_0)
  next
    case 2
    then show ?thesis using assms by (intro pos) simp_all
  next
    case 3
    then have "round_fin (of_int (- n)) = of_int (- n)"
      using assms by (intro pos) simp_all
    then show ?thesis
      using round_fin_minus [of "of_int n"] by simp
  qed
qed

subsection \<open>Interpolating one channel\<close>

lemma round_fin_abs_le:
  assumes "\<bar>x\<bar> \<le> pow2 k" and "- 1022 \<le> k"
  shows "\<bar>round_fin x\<bar> \<le> pow2 k"
proof -
  have "round_fin x \<le> round_fin (pow2 k)"
    using assms(1) by (intro round_fin_mono) simp
  moreover have "round_fin (- pow2 k) \<le> round_fin x"
    using assms(1) by (intro round_fin_mono) simp
  ultimately show ?thesis
    using round_fin_pow2 [OF assms(2)] by (simp add: round_fin_minus abs_le_iff)
qed

lemma rnd_Fin:
  assumes "\<bar>x\<bar> \<le> pow2 k" and "- 1022 \<le> k" and "k < 1024"
  shows "rnd x = Fin (round_fin x)"
proof (cases "round_fin x = 0")
  case True
  then show ?thesis by (simp add: rnd_def)
next
  case False
  then have "0 < \<bar>round_fin x\<bar>" by simp
  then have "ilog2 \<bar>round_fin x\<bar> \<le> ilog2 (pow2 k)"
    using round_fin_abs_le [OF assms(1,2)] by (rule ilog2_mono)
  then have "ilog2 \<bar>round_fin x\<bar> < 1024"
    using assms(3) by (simp add: ilog2_pow2)
  with False show ?thesis
    by (simp add: rnd_def Let_def)
qed

lemma of_int_abs_le_pow2:
  assumes "\<bar>n\<bar> \<le> 2 ^ k"
  shows "\<bar>of_int n :: rat\<bar> \<le> pow2 (int k)"
proof -
  have "(of_int \<bar>n\<bar> :: rat) \<le> of_int (2 ^ k)"
    using assms by (simp only: of_int_le_iff)
  then show ?thesis
    by (simp add: pow2_def)
qed

lemma float_of_int_exact:
  assumes "\<bar>n\<bar> \<le> 2 ^ 53"
  shows "float_of_int n = Inr (Fin (of_int n))"
proof -
  have "rnd (of_int n) = Fin (round_fin (of_int n))"
    using of_int_abs_le_pow2 [OF assms] by (intro rnd_Fin [where k = 53]) simp_all
  then show ?thesis
    by (simp add: float_of_int_def round_fin_of_int [OF assms])
qed

text \<open>The value of one channel on the path without exceptions.\<close>

lemma lerp_channel_value:
  assumes c1: "\<bar>c1\<bar> \<le> 255" and c2: "\<bar>c2\<bar> \<le> 255" and q: "\<bar>q\<bar> \<le> 2 ^ 1000"
  defines "v \<equiv> round_fin (of_int c1 + round_fin (of_int (c2 - c1) * q))"
  shows "lerp_channel c1 c2 (Fin q) = Inr (if 0 \<le> v then \<lfloor>v\<rfloor> else \<lceil>v\<rceil>)"
proof -
  define p where "p = round_fin (of_int (c2 - c1) * q)"
  have d: "\<bar>c2 - c1\<bar> \<le> 2 ^ 9"
    using c1 c2 by simp
  have fd: "float_of_int (c2 - c1) = Inr (Fin (of_int (c2 - c1)))"
    using d by (intro float_of_int_exact) simp
  have fc: "float_of_int c1 = Inr (Fin (of_int c1))"
    using c1 by (intro float_of_int_exact) simp
  have "\<bar>of_int (c2 - c1) * q\<bar> = \<bar>of_int (c2 - c1) :: rat\<bar> * \<bar>q\<bar>"
    by (simp add: abs_mult)
  also have "\<dots> \<le> pow2 9 * 2 ^ 1000"
    using of_int_abs_le_pow2 [OF d] q by (intro mult_mono) simp_all
  also have "\<dots> = pow2 1009"
    by (simp add: pow2_def)
  finally have dq: "\<bar>of_int (c2 - c1) * q\<bar> \<le> pow2 1009" .
  have m: "rnd (of_int (c2 - c1) * q) = Fin p"
    using rnd_Fin [OF dq] by (simp add: p_def)
  have p: "\<bar>p\<bar> \<le> pow2 1009"
    unfolding p_def using dq by (rule round_fin_abs_le) simp
  have "\<bar>of_int c1 :: rat\<bar> \<le> pow2 1009"
  proof -
    have "\<bar>c1\<bar> \<le> 2 ^ 9" using c1 by simp
    then have "\<bar>of_int c1 :: rat\<bar> \<le> pow2 9"
      using of_int_abs_le_pow2 [of c1 9] by simp
    also have "pow2 9 \<le> pow2 1009"
      by (rule pow2_mono) simp
    finally show ?thesis .
  qed
  with p have "\<bar>of_int c1 + p\<bar> \<le> pow2 1009 + pow2 1009"
    by linarith
  also have "\<dots> = pow2 1010"
    using pow2_add [of 1 1009] by (simp add: pow2_def)
  finally have "rnd (of_int c1 + p) = Fin (round_fin (of_int c1 + p))"
    by (rule rnd_Fin) simp_all
  then have "rnd (of_int c1 + p) = Fin v"
    by (simp add: v_def p_def)
  then show ?thesis
    by (simp add: lerp_channel_def ebind_def fd fc m del: of_int_diff)
qed

lemma trunc_between:
  fixes s :: rat
  assumes "of_int a \<le> s" and "s \<le> of_int b"
  shows "a \<le> (if 0 \<le> s then \<lfloor>s\<rfloor> else \<lceil>s\<rceil>) \<and> (if 0 \<le> s then \<lfloor>s\<rfloor> else \<lceil>s\<rceil>) \<le> b"
proof -
  have 1: "a \<le> \<lfloor>s\<rfloor>"
    using assms(1) by (simp add: le_floor_iff)
  have 2: "\<lceil>s\<rceil> \<le> b"
    using assms(2) by (simp add: ceiling_le_iff)
  have 3: "\<lfloor>s\<rfloor> \<le> \<lceil>s\<rceil>"
    by (rule floor_le_ceiling)
  from 1 2 3 have "a \<le> \<lceil>s\<rceil>" "\<lfloor>s\<rfloor> \<le> b"
    by linarith+
  with 1 2 show ?thesis by simp
qed

text \<open>With a ratio between 0 and 1 the channel stays between its two ends.\<close>

lemma lerp_channel_between:
  assumes c1: "\<bar>c1\<bar> \<le> 255" and c2: "\<bar>c2\<bar> \<le> 255" and q: "0 \<le> q" "q \<le> 1"
  shows "\<exists>v. lerp_channel c1 c2 (Fin q) = Inr v \<and> min c1 c2 \<le> v \<and> v \<le> max c1 c2"
proof -
  define p where "p = round_fin (of_int (c2 - c1) * q)"
  define v where "v = round_fin (of_int c1 + p)"
  have "\<bar>q\<bar> \<le> 2 ^ 1000"
  proof -
    have "\<bar>q\<bar> \<le> 1" using q by simp
    also have "(1::rat) \<le> 2 ^ 1000" by (rule one_le_power) simp
    finally show ?thesis .
  qed
  from lerp_channel_value [OF c1 c2 this]
  have val: "lerp_channel c1 c2 (Fin q) = Inr (if 0 \<le> v then \<lfloor>v\<rfloor> else \<lceil>v\<rceil>)"
    by (simp add: v_def p_def)
  have ex1: "round_fin (of_int c1) = of_int c1" and ex2: "round_fin (of_int c2) = of_int c2"
    using c1 c2 by (simp_all add: round_fin_of_int)
  have "round_fin (of_int (c2 - c1)) = of_int (c2 - c1)"
    using c1 c2 by (intro round_fin_of_int) simp
  then have exd: "round_fin (of_int c2 - of_int c1) = of_int c2 - of_int c1"
    by simp
  have "of_int (min c1 c2) \<le> v \<and> v \<le> of_int (max c1 c2)"
  proof (cases "c1 \<le> c2")
    case True
    then have d: "(0::rat) \<le> of_int (c2 - c1)" by simp
    have "0 \<le> of_int (c2 - c1) * q" "of_int (c2 - c1) * q \<le> of_int (c2 - c1)"
      using d q by (simp_all add: mult_left_le)
    then have "round_fin 0 \<le> p" "p \<le> round_fin (of_int (c2 - c1))"
      unfolding p_def by (simp_all only: round_fin_mono)
    then have "of_int c1 \<le> of_int c1 + p" "of_int c1 + p \<le> of_int c2"
      by (simp_all add: round_fin_0 exd)
    then have "round_fin (of_int c1) \<le> v" "v \<le> round_fin (of_int c2)"
      unfolding v_def by (simp_all only: round_fin_mono)
    with True show ?thesis
      by (simp add: ex1 ex2 min_def max_def)
  next
    case False
    then have d: "of_int (c2 - c1) \<le> (0::rat)" by simp
    have "(0::rat) \<le> of_int (c2 - c1) * (q - 1)"
      using d q by (intro mult_nonpos_nonpos) simp_all
    then have "(of_int (c2 - c1) :: rat) \<le> of_int (c2 - c1) * q"
      by (simp add: algebra_simps)
    moreover have "of_int (c2 - c1) * q \<le> 0"
      using d q by (intro mult_nonpos_nonneg) simp_all
    ultimately have "of_int (c2 - c1) * q \<le> 0" "of_int (c2 - c1) \<le> of_int (c2 - c1) * q"
      by simp_all
    then have "p \<le> round_fin 0" "round_fin (of_int (c2 - c1)) \<le> p"
      unfolding p_def by (simp_all only: round_fin_mono)
    then have "of_int c1 + p \<le> of_int c1" "of_int c2 \<le> of_int c1 + p"
      by (simp_all add: round_fin_0 exd)
    then have "v \<le> round_fin (of_int c1)" "round_fin (of_int c2) \<le> v"
      unfolding v_def by (simp_all only: round_fin_mono)
    with False show ?thesis
      by (simp add: ex1 ex2 min_def max_def)
  qed
  then show ?thesis
    using trunc_between [of "min c1 c2" v "max c1 c2"] val by simp
qed

lemma lerp_channel_0:
  assumes "\<bar>c1\<bar> \<le> 255" and "\<bar>c2\<bar> \<le> 255"
  shows "lerp_channel c1 c2 (Fin 0) = Inr c1"
proof -
  have "round_fin (of_int c1) = of_int c1"
    using assms by (simp add: round_fin_of_int)
  then show ?thesis
    using lerp_channel_value [OF assms, of 0] by (simp add: round_fin_0)
qed

lemma lerp_channel_1:
  assumes "\<bar>c1\<bar> \<le> 255" and "\<bar>c2\<bar> \<le> 255"
  shows "lerp_channel c1 c2 (Fin 1) = Inr c2"
proof -
  have "round_fin (of_int (c2 - c1)) = of_int (c2 - c1)"
    using assms by (intro round_fin_of_int) simp
  moreover have "round_fin (of_int c2) = of_int c2"
    using assms by (simp add: round_fin_of_int)
  moreover have e: "(of_int c1 :: rat) + of_int (c2 - c1) = of_int c2"
    by simp
  ultimately have "round_fin (of_int c1 + round_fin (of_int (c2 - c1) * 1)) = of_int c2"
    by (simp only: mult_1_right e)
  then show ?thesis
    using lerp_channel_value [OF assms, of 1] by (simp del: of_int_diff)
qed

section \<open>Colour interpolation\<close>

lemma interpolate_color_channels:
  assumes "lerp_channel r1 r2 ratio = Inr r" and "lerp_channel g1 g2 ratio = Inr g"
    and "lerp_channel b1 b2 ratio = Inr b"
  shows "interpolate_color (r1, g1, b1) (r2, g2, b2) ratio = Inr (r, g, b)"
  using assms by (simp add: interpolate_color_def ebind_def)

lemma valid_color_abs:
  assumes "valid_color (r, g, b)"
  shows "\<bar>r\<bar> \<le> 255" and "\<bar>g\<bar> \<le> 255" and "\<bar>b\<bar> \<le> 255"
  using assms by (simp_all add: valid_color_def)

text \<open>
  C4. For two valid colours and a ratio between 0 and 1, \<^verbatim>\<open>interpolate_color\<close>
  returns a colour whose every channel lies between the corresponding channels of the two
  colours; the ratio 0 returns the first colour and the ratio 1 the second, exactly.
\<close>

theorem interpolate_color_between:
  assumes "valid_color (r1, g1, b1)" and "valid_color (r2, g2, b2)" and "0 \<le> q" and "q \<le> 1"
  shows "(\<exists>r g b. interpolate_color (r1, g1, b1) (r2, g2, b2) (Fin q) = Inr (r, g, b) \<and>
            min r1 r2 \<le> r \<and> r \<le> max r1 r2 \<and>
            min g1 g2 \<le> g \<and> g \<le> max g1 g2 \<and>
            min b1 b2 \<le> b \<and> b \<le> max b1 b2) \<and>
         interpolate_color (r1, g1, b1) (r2, g2, b2) (Fin 0) = Inr (r1, g1, b1) \<and>
         interpolate_color (r1, g1, b1) (r2, g2, b2) (Fin 1) = Inr (r2, g2, b2)"
proof -
  note a1 = valid_color_abs [OF assms(1)] and a2 = valid_color_abs [OF assms(2)]
  obtain r where r: "lerp_channel r1 r2 (Fin q) = Inr r" "min r1 r2 \<le> r" "r \<le> max r1 r2"
    using lerp_channel_between [OF a1(1) a2(1) assms(3,4)] by blast
  obtain g where g: "lerp_channel g1 g2 (Fin q) = Inr g" "min g1 g2 \<le> g" "g \<le> max g1 g2"
    using lerp_channel_between [OF a1(2) a2(2) assms(3,4)] by blast
  obtain b where b: "lerp_channel b1 b2 (Fin q) = Inr b" "min b1 b2 \<le> b" "b \<le> max b1 b2"
    using lerp_channel_between [OF a1(3) a2(3) assms(3,4)] by blast
  have "interpolate_color (r1, g1, b1) (r2, g2, b2) (Fin q) = Inr (r, g, b)"
    using r(1) g(1) b(1) by (rule interpolate_color_channels)
  with r g b have 1: "\<exists>r g b. interpolate_color (r1, g1, b1) (r2, g2, b2) (Fin q) = Inr (r, g, b) \<and>
            min r1 r2 \<le> r \<and> r \<le> max r1 r2 \<and>
            min g1 g2 \<le> g \<and> g \<le> max g1 g2 \<and>
            min b1 b2 \<le> b \<and> b \<le> max b1 b2"
    by blast
  have 2: "interpolate_color (r1, g1, b1) (r2, g2, b2) (Fin 0) = Inr (r1, g1, b1)"
    by (intro interpolate_color_channels lerp_channel_0 a1 a2)
  have 3: "interpolate_color (r1, g1, b1) (r2, g2, b2) (Fin 1) = Inr (r2, g2, b2)"
    by (intro interpolate_color_channels lerp_channel_1 a1 a2)
  from 1 2 3 show ?thesis by blast
qed

theorem interpolate_color_between_witness:
  "valid_color (180, 180, 180) \<and> valid_color (129, 140, 248) \<and>
   (0::rat) \<le> 3 / 10 \<and> (3 / 10 :: rat) \<le> 1 \<and>
   (\<exists>r g b. interpolate_color (180, 180, 180) (129, 140, 248) (Fin (3 / 10)) = Inr (r, g, b) \<and>
      min 180 129 \<le> r \<and> r \<le> max 180 129 \<and>
      min 180 140 \<le> g \<and> g \<le> max 180 140 \<and>
      min 180 248 \<le> b \<and> b \<le> max 180 248) \<and>
   interpolate_color (180, 180, 180) (129, 140, 248) (Fin 0) = Inr (180, 180, 180) \<and>
   interpolate_color (180, 180, 180) (129, 140, 248) (Fin 1) = Inr (129, 140, 248)"
proof -
  have v: "valid_color (180, 180, 180)" "valid_color (129, 140, 248)"
    by (simp_all add: valid_color_def)
  have q: "(0::rat) \<le> 3 / 10" "(3 / 10 :: rat) \<le> 1"
    by simp_all
  from interpolate_color_between [OF v q] v q show ?thesis
    by blast
qed

text \<open>
  C5, as amended. For two valid colours and a finite ratio of magnitude at most
  \<open>2 ^ 1000\<close> (in or out of the range from 0 to 1), \<^verbatim>\<open>interpolate_color\<close> raises
  nothing and every channel is the float value of \<^verbatim>\<open>c1 + (c2 - c1) * ratio\<close>
  truncated toward zero: its floor when the value is not negative, its ceiling otherwise.
\<close>

theorem interpolate_color_truncates:
  assumes "valid_color (r1, g1, b1)" and "valid_color (r2, g2, b2)" and "\<bar>q\<bar> \<le> 2 ^ 1000"
  shows "interpolate_color (r1, g1, b1) (r2, g2, b2) (Fin q) =
           Inr (toward_zero (channel_value r1 r2 q),
                toward_zero (channel_value g1 g2 q),
                toward_zero (channel_value b1 b2 q))"
proof -
  note a1 = valid_color_abs [OF assms(1)] and a2 = valid_color_abs [OF assms(2)]
  have tz: "(if 0 \<le> v then \<lfloor>v\<rfloor> else \<lceil>v\<rceil>) = toward_zero v" for v :: rat
    by (simp add: toward_zero_def ceiling_def)
  show ?thesis
    by (intro interpolate_color_channels)
      (simp_all only: lerp_channel_value [OF a1(1) a2(1) assms(3)]
        lerp_channel_value [OF a1(2) a2(2) assms(3)]
        lerp_channel_value [OF a1(3) a2(3) assms(3)] tz channel_value_def)
qed

theorem interpolate_color_truncates_witness:
  "valid_color (10, 20, 30) \<and> valid_color (0, 40, 30) \<and> \<bar>- 1 / 2 :: rat\<bar> \<le> 2 ^ 1000 \<and>
   interpolate_color (10, 20, 30) (0, 40, 30) (Fin (- 1 / 2)) =
     Inr (toward_zero (channel_value 10 0 (- 1 / 2)),
          toward_zero (channel_value 20 40 (- 1 / 2)),
          toward_zero (channel_value 30 30 (- 1 / 2)))"
proof -
  have v: "valid_color (10, 20, 30)" "valid_color (0, 40, 30)"
    by (simp_all add: valid_color_def)
  have "\<bar>- 1 / 2 :: rat\<bar> \<le> 1" by simp
  also have "(1::rat) \<le> 2 ^ 1000" by (rule one_le_power) simp
  finally have q: "\<bar>- 1 / 2 :: rat\<bar> \<le> 2 ^ 1000" .
  from interpolate_color_truncates [OF v q] v q show ?thesis
    by blast
qed

theorem interpolate_color_floor_counterexample:
  "interpolate_color (0, 0, 0) (1, 1, 1) (Fin (- 1 / 2)) = Inr (0, 0, 0) \<and>
   \<lfloor>channel_value 0 1 (- 1 / 2)\<rfloor> = - 1 \<and>
   \<lfloor>0 + (1 - 0) * (- 1 / 2) :: rat\<rfloor> = - 1"
  by code_simp

section \<open>Drawing\<close>

subsection \<open>Painting and rounded rectangles\<close>

lemma ebind_Inr: "ebind (Inr x) f = f x"
  by (simp add: ebind_def)

lemma ebind_Inl: "ebind (Inl e) f = Inl e"
  by (simp add: ebind_def)

lemma pixel_paint:
  "pixel (paint cover c img) x y = (if cover x y \<and> in_image img x y then c else pixel img x y)"
  by (simp add: paint_def)

lemma width_paint: "width (paint cover c img) = width img"
  by (simp add: paint_def)

lemma height_paint: "height (paint cover c img) = height img"
  by (simp add: paint_def)

lemma in_image_paint: "in_image (paint cover c img) x y = in_image img x y"
  by (simp add: in_image_def width_paint height_paint)

lemma paint_paint:
  "paint cover2 c (paint cover1 c img) = paint (\<lambda>x y. cover1 x y \<or> cover2 x y) c img"
  by (simp add: paint_def in_image_def fun_eq_iff)

text \<open>With a radius that fits, a rounded rectangle is one fill of the cover.\<close>

lemma draw_rounded_rect_paint:
  assumes "0 \<le> radius" and "2 * radius \<le> x2 - x1" and "2 * radius \<le> y2 - y1"
  shows "draw_rounded_rect ell (x1, y1, x2, y2) radius fill img =
           Inr (paint (rounded_cover ell (x1, y1, x2, y2) radius) fill img)"
proof -
  have "rounded_cover ell (x1, y1, x2, y2) radius =
        (\<lambda>x y. ((((in_box (x1 + radius, y1, x2 - radius, y2) x y \<or>
               in_box (x1, y1 + radius, x2, y2 - radius) x y) \<or>
               ell (x1, y1, x1 + 2 * radius, y1 + 2 * radius) x y) \<or>
               ell (x2 - 2 * radius, y1, x2, y1 + 2 * radius) x y) \<or>
               ell (x1, y2 - 2 * radius, x1 + 2 * radius, y2) x y) \<or>
               ell (x2 - 2 * radius, y2 - 2 * radius, x2, y2) x y)"
    by (simp add: rounded_cover_def fun_eq_iff)
  then show ?thesis
    using assms
    by (simp add: draw_rounded_rect_def rectangle_def ellipse_def reversed_def ebind_Inr paint_paint)
qed

lemma inscribed_in_box: "ell_in_box inscribed"
  by (simp add: ell_in_box_def inscribed_def)

lemma ell_in_boxD:
  assumes "ell_in_box ell" and "ell (a, b, c, d) x y"
  shows "a \<le> x \<and> x \<le> c \<and> b \<le> y \<and> y \<le> d"
proof -
  have "in_box (a, b, c, d) x y"
    using assms unfolding ell_in_box_def by blast
  then show ?thesis
    by (simp add: in_box_def)
qed

lemma in_image_Image_new:
  "in_image (Image_new n c) x y = (0 \<le> x \<and> x < int n \<and> 0 \<le> y \<and> y < int n)"
  by (simp add: in_image_def Image_new_def)

lemma pixel_Image_new: "pixel (Image_new n c) x y = c"
  by (simp add: Image_new_def)

lemma inscribed_corner:
  assumes "inscribed (x0, y0, x1, y1) x y" and "x = x0 \<or> x = x1" and "y = y0 \<or> y = y1"
    and "x0 < x1" and "y0 < y1"
  shows False
proof -
  define A B W H where "A = 2 * x - x0 - x1" and "B = 2 * y - y0 - y1"
    and "W = x1 - x0" and "H = y1 - y0"
  have le: "A ^ 2 * H ^ 2 + B ^ 2 * W ^ 2 \<le> W ^ 2 * H ^ 2"
    using assms(1) unfolding inscribed_def A_def B_def W_def H_def by simp
  have "A = W \<or> A = - W"
    using assms(2) by (auto simp add: A_def W_def)
  then have A: "A ^ 2 = W ^ 2"
    by auto
  have "B = H \<or> B = - H"
    using assms(3) by (auto simp add: B_def H_def)
  then have B: "B ^ 2 = H ^ 2"
    by auto
  have "0 < W" "0 < H"
    using assms(4,5) by (simp_all add: W_def H_def)
  then have "0 < W ^ 2 * H ^ 2"
    by (intro mult_pos_pos zero_less_power)
  with le show False
    unfolding A B by (simp add: mult.commute)
qed

lemma inscribed_skips_corners: "ell_skips_corners inscribed"
  unfolding ell_skips_corners_def
proof (intro allI impI)
  fix x0 y0 x1 y1 :: int
  assume "x0 + 2 \<le> x1 \<and> y0 + 2 \<le> y1"
  then have lt: "x0 < x1" "y0 < y1"
    by simp_all
  show "\<not> inscribed (x0, y0, x1, y1) x0 y0 \<and> \<not> inscribed (x0, y0, x1, y1) x1 y0 \<and>
        \<not> inscribed (x0, y0, x1, y1) x0 y1 \<and> \<not> inscribed (x0, y0, x1, y1) x1 y1"
    using inscribed_corner [of x0 y0 x1 y1 x0 y0] inscribed_corner [of x0 y0 x1 y1 x1 y0]
      inscribed_corner [of x0 y0 x1 y1 x0 y1] inscribed_corner [of x0 y0 x1 y1 x1 y1] lt
    by blast
qed

text \<open>
  C7, as amended. For a box inside the image and a radius \<open>R\<close> with
  \<open>1 \<le> R\<close> and \<open>2 R < min (W, H)\<close>, where \<open>W = x2 - x1\<close> and \<open>H = y2 - y1\<close>,
  \<^verbatim>\<open>draw_rounded_rect\<close> succeeds, the four corner pixels of the box keep the colour
  they had (so they are not the fill colour when the background differs from it), and the
  midpoints of the four edges have the fill colour. The ellipse rasteriser is assumed to
  stay inside its box and to leave the corner pixels of its box.
\<close>

theorem draw_rounded_rect_corners_midpoints:
  assumes "ell_in_box ell" and "ell_skips_corners ell"
    and "1 \<le> radius" and "2 * radius < x2 - x1" and "2 * radius < y2 - y1"
    and "0 \<le> x1" and "x2 < int (width img)" and "0 \<le> y1" and "y2 < int (height img)"
  shows "pixel_of (draw_rounded_rect ell (x1, y1, x2, y2) radius fill img) x1 y1 = Some (pixel img x1 y1) \<and>
         pixel_of (draw_rounded_rect ell (x1, y1, x2, y2) radius fill img) x2 y1 = Some (pixel img x2 y1) \<and>
         pixel_of (draw_rounded_rect ell (x1, y1, x2, y2) radius fill img) x1 y2 = Some (pixel img x1 y2) \<and>
         pixel_of (draw_rounded_rect ell (x1, y1, x2, y2) radius fill img) x2 y2 = Some (pixel img x2 y2) \<and>
         pixel_of (draw_rounded_rect ell (x1, y1, x2, y2) radius fill img) ((x1 + x2) div 2) y1 = Some fill \<and>
         pixel_of (draw_rounded_rect ell (x1, y1, x2, y2) radius fill img) ((x1 + x2) div 2) y2 = Some fill \<and>
         pixel_of (draw_rounded_rect ell (x1, y1, x2, y2) radius fill img) x1 ((y1 + y2) div 2) = Some fill \<and>
         pixel_of (draw_rounded_rect ell (x1, y1, x2, y2) radius fill img) x2 ((y1 + y2) div 2) = Some fill"
proof -
  have d: "draw_rounded_rect ell (x1, y1, x2, y2) radius fill img =
      Inr (paint (rounded_cover ell (x1, y1, x2, y2) radius) fill img)"
    using assms(3-5) by (intro draw_rounded_rect_paint) simp_all
  have w: "x1 + 2 \<le> x1 + 2 * radius" "x2 - 2 * radius + 2 \<le> x2"
    and h: "y1 + 2 \<le> y1 + 2 * radius" "y2 - 2 * radius + 2 \<le> y2"
    using assms(3) by simp_all
  have sk:
    "\<not> ell (x1, y1, x1 + 2 * radius, y1 + 2 * radius) x1 y1"
    "\<not> ell (x2 - 2 * radius, y1, x2, y1 + 2 * radius) x2 y1"
    "\<not> ell (x1, y2 - 2 * radius, x1 + 2 * radius, y2) x1 y2"
    "\<not> ell (x2 - 2 * radius, y2 - 2 * radius, x2, y2) x2 y2"
    using assms(2) w h unfolding ell_skips_corners_def by blast+
  have far:
    "\<not> ell (x2 - 2 * radius, y1, x2, y1 + 2 * radius) x1 y"
    "\<not> ell (x2 - 2 * radius, y2 - 2 * radius, x2, y2) x1 y"
    "\<not> ell (x1, y1, x1 + 2 * radius, y1 + 2 * radius) x2 y"
    "\<not> ell (x1, y2 - 2 * radius, x1 + 2 * radius, y2) x2 y"
    "\<not> ell (x1, y2 - 2 * radius, x1 + 2 * radius, y2) x y1"
    "\<not> ell (x2 - 2 * radius, y2 - 2 * radius, x2, y2) x y1"
    "\<not> ell (x1, y1, x1 + 2 * radius, y1 + 2 * radius) x y2"
    "\<not> ell (x2 - 2 * radius, y1, x2, y1 + 2 * radius) x y2" for x y
    using assms(4,5) by (auto dest!: ell_in_boxD [OF assms(1)])
  have mid: "x1 + radius \<le> (x1 + x2) div 2" "(x1 + x2) div 2 \<le> x2 - radius"
    "y1 + radius \<le> (y1 + y2) div 2" "(y1 + y2) div 2 \<le> y2 - radius"
    using assms(4,5) by linarith+
  have img: "in_image img x1 y1" "in_image img x2 y1" "in_image img x1 y2" "in_image img x2 y2"
    "in_image img ((x1 + x2) div 2) y1" "in_image img ((x1 + x2) div 2) y2"
    "in_image img x1 ((y1 + y2) div 2)" "in_image img x2 ((y1 + y2) div 2)"
    using assms(3-9) mid by (simp_all add: in_image_def)
  have c1: "\<not> rounded_cover ell (x1, y1, x2, y2) radius x1 y1"
    using assms(3-5) sk far by (simp add: rounded_cover_def in_box_def)
  have c2: "\<not> rounded_cover ell (x1, y1, x2, y2) radius x2 y1"
    using assms(3-5) sk far by (simp add: rounded_cover_def in_box_def)
  have c3: "\<not> rounded_cover ell (x1, y1, x2, y2) radius x1 y2"
    using assms(3-5) sk far by (simp add: rounded_cover_def in_box_def)
  have c4: "\<not> rounded_cover ell (x1, y1, x2, y2) radius x2 y2"
    using assms(3-5) sk far by (simp add: rounded_cover_def in_box_def)
  have m1: "rounded_cover ell (x1, y1, x2, y2) radius ((x1 + x2) div 2) y1"
    and m2: "rounded_cover ell (x1, y1, x2, y2) radius ((x1 + x2) div 2) y2"
    and m3: "rounded_cover ell (x1, y1, x2, y2) radius x1 ((y1 + y2) div 2)"
    and m4: "rounded_cover ell (x1, y1, x2, y2) radius x2 ((y1 + y2) div 2)"
    using assms(3-5) mid by (simp_all add: rounded_cover_def in_box_def)
  show ?thesis
    unfolding d
    by (simp add: pixel_of_def in_image_paint pixel_paint img c1 c2 c3 c4 m1 m2 m3 m4)
qed

theorem draw_rounded_rect_corners_midpoints_witness:
  "ell_in_box inscribed \<and> ell_skips_corners inscribed \<and>
   (1::int) \<le> 2 \<and> (2 * 2 :: int) < 9 - 2 \<and>
   (0::int) \<le> 2 \<and> 9 < int (width (Image_new 12 (0, 0, 0))) \<and>
   9 < int (height (Image_new 12 (0, 0, 0))) \<and>
   pixel_of (draw_rounded_rect inscribed (2, 2, 9, 9) 2 (255, 255, 255)
     (Image_new 12 (0, 0, 0))) 2 2 = Some (0, 0, 0) \<and>
   pixel_of (draw_rounded_rect inscribed (2, 2, 9, 9) 2 (255, 255, 255)
     (Image_new 12 (0, 0, 0))) 5 2 = Some (255, 255, 255)"
proof -
  have s: "9 < int (width (Image_new 12 (0, 0, 0)))" "9 < int (height (Image_new 12 (0, 0, 0)))"
    by (simp_all add: Image_new_def)
  have p: "pixel (Image_new 12 (0, 0, 0)) 2 2 = (0, 0, 0)" "(2 + 9) div 2 = (5::int)"
    by (simp_all add: pixel_Image_new)
  from draw_rounded_rect_corners_midpoints [OF inscribed_in_box inscribed_skips_corners,
      of 2 9 2 9 2 "Image_new 12 (0, 0, 0)" "(255, 255, 255)"] s p
  show ?thesis
    using inscribed_in_box inscribed_skips_corners by simp
qed

theorem draw_rounded_rect_radius_0_counterexample:
  "2 * (0::int) < min (7 - 2) (7 - 2) \<and>
   pixel (Image_new 10 (0, 0, 0)) 2 2 \<noteq> (255, 255, 255) \<and>
   pixel_of (draw_rounded_rect inscribed (2, 2, 7, 7) 0 (255, 255, 255)
     (Image_new 10 (0, 0, 0))) 2 2 = Some (255, 255, 255)"
  by (simp add: draw_rounded_rect_paint pixel_of_def in_image_paint pixel_paint
      rounded_cover_def in_box_def in_image_Image_new pixel_Image_new)

subsection \<open>Loops, small floats and the bar\<close>

lemma for_loop_cong:
  assumes "\<And>i s. i \<in> set xs \<Longrightarrow> f i s = g i s"
  shows "for_loop xs f s = for_loop xs g s"
  using assms by (induction xs arbitrary: s) (simp_all split: sum.splits)

lemma for_loop_invariant:
  assumes "P s" and "\<And>i s. i \<in> set xs \<Longrightarrow> P s \<Longrightarrow> \<exists>s'. body i s = Inr s' \<and> P s'"
  shows "\<exists>s'. for_loop xs body s = Inr s' \<and> P s'"
  using assms
proof (induction xs arbitrary: s)
  case Nil
  then show ?case by simp
next
  case (Cons i xs)
  from Cons.prems obtain s1 where s1: "body i s = Inr s1" "P s1"
    by (meson list.set_intros(1))
  have "\<exists>s'. for_loop xs body s1 = Inr s' \<and> P s'"
    by (rule Cons.IH [OF s1(2)]) (simp add: Cons.prems(2))
  with s1 show ?case by simp
qed

lemma set_py_range: "set (py_range n) = {i. 0 \<le> i \<and> i < int n}"
proof -
  have "i \<in> int ` {0..<n} \<longleftrightarrow> 0 \<le> i \<and> i < int n" for i
  proof
    assume "i \<in> int ` {0..<n}"
    then show "0 \<le> i \<and> i < int n" by auto
  next
    assume "0 \<le> i \<and> i < int n"
    then have "nat i \<in> {0..<n}" "i = int (nat i)" by auto
    then show "i \<in> int ` {0..<n}" by blast
  qed
  then show ?thesis
    by (auto simp add: py_range_def)
qed

lemma rnd_of_int:
  assumes "\<bar>n\<bar> \<le> 2 ^ 53"
  shows "rnd (of_int n) = Fin (of_int n)"
proof -
  have "rnd (of_int n) = Fin (round_fin (of_int n))"
    using of_int_abs_le_pow2 [OF assms] by (intro rnd_Fin [where k = 53]) simp_all
  then show ?thesis
    by (simp add: round_fin_of_int [OF assms])
qed

lemma py_int_of_int: "py_int (Fin (of_int n)) = Inr n"
  by simp

lemma rnd_unit:
  assumes "0 \<le> x" and "x \<le> 1"
  shows "\<exists>q. rnd x = Fin q \<and> 0 \<le> q \<and> q \<le> 1"
proof -
  have "\<bar>x\<bar> \<le> pow2 0"
    using assms by (simp add: pow2_def)
  then have "rnd x = Fin (round_fin x)"
    by (rule rnd_Fin) simp_all
  moreover have "round_fin 0 \<le> round_fin x" "round_fin x \<le> round_fin 1"
    using assms by (simp_all only: round_fin_mono)
  moreover have "round_fin 1 = 1"
    using round_fin_of_int [of 1] by simp
  ultimately show ?thesis
    by (simp add: round_fin_0)
qed

lemma interpolate_color_valid:
  assumes "valid_color c1" and "valid_color c2" and "0 \<le> q" and "q \<le> 1"
  shows "\<exists>c. interpolate_color c1 c2 (Fin q) = Inr c \<and> valid_color c"
proof -
  obtain r1 g1 b1 r2 g2 b2 where c: "c1 = (r1, g1, b1)" "c2 = (r2, g2, b2)"
    by (metis prod_cases3)
  note v1 = assms(1) [unfolded c] and v2 = assms(2) [unfolded c]
  note a1 = valid_color_abs [OF v1] and a2 = valid_color_abs [OF v2]
  obtain r where r: "lerp_channel r1 r2 (Fin q) = Inr r" "min r1 r2 \<le> r" "r \<le> max r1 r2"
    using lerp_channel_between [OF a1(1) a2(1) assms(3,4)] by blast
  obtain g where g: "lerp_channel g1 g2 (Fin q) = Inr g" "min g1 g2 \<le> g" "g \<le> max g1 g2"
    using lerp_channel_between [OF a1(2) a2(2) assms(3,4)] by blast
  obtain b where b: "lerp_channel b1 b2 (Fin q) = Inr b" "min b1 b2 \<le> b" "b \<le> max b1 b2"
    using lerp_channel_between [OF a1(3) a2(3) assms(3,4)] by blast
  have "interpolate_color c1 c2 (Fin q) = Inr (r, g, b)"
    unfolding c using r(1) g(1) b(1) by (rule interpolate_color_channels)
  moreover have "valid_color (r, g, b)"
    using v1 v2 r(2,3) g(2,3) b(2,3) by (simp add: valid_color_def min_def max_def split: if_splits)
  ultimately show ?thesis by blast
qed

lemma dumbbell_constants:
  "bar_left = 312" "bar_top = 482" "bar_height = 60"
  "left_weight_left = 292" "left_weight_right = 412" "weight_top = 372" "weight_bottom = 652"
  "right_weight_left = 612" "right_weight_right = 732" "weight_radius = 30" "inner_margin = 20"
  "int bar_segments = 20" "bar_width = 400"
  by (simp_all add: bar_left_def bar_top_def bar_height_def left_weight_left_def
      left_weight_right_def weight_top_def weight_bottom_def right_weight_left_def
      right_weight_right_def weight_radius_def inner_margin_def bar_segments_def bar_width_def
      weight_width_def weight_height_def CENTER_def SIZE_def)

lemma segment_width_value: "int_truediv bar_width (int bar_segments) = Inr (Fin 20)"
proof -
  have "rnd (of_int 20) = Fin (of_int 20)"
    by (rule rnd_of_int) simp
  then show ?thesis
    by (simp add: int_truediv_def dumbbell_constants)
qed

text \<open>The float coordinates of segment \<open>i\<close> are whole numbers and are computed exactly.\<close>

lemma bar_segment_rectangle:
  assumes "0 \<le> i" and "i < 20"
  shows "bar_segment p a (Fin 20) i img =
           ebind (int_truediv i 19) (\<lambda>ratio.
           ebind (interpolate_color p a ratio) (\<lambda>color.
           rectangle (bar_left + 20 * i, bar_top, bar_left + 20 * (i + 1) + 1, bar_top + bar_height)
             color img))"
proof -
  have small: "\<bar>n\<bar> \<le> 2 ^ 53" if "\<bar>n\<bar> \<le> 1000" for n :: int
    using that by simp
  have f: "float_of_int i = Inr (Fin (of_int i))" "float_of_int (i + 1) = Inr (Fin (of_int (i + 1)))"
    "float_of_int bar_left = Inr (Fin (of_int 312))" "float_of_int 1 = Inr (Fin (of_int 1))"
    using assms by (simp_all only: dumbbell_constants) (intro float_of_int_exact small; simp)+
  have m1: "fmul (Fin (of_int i)) (Fin 20) = Fin (of_int (20 * i))"
    using rnd_of_int [of "20 * i"] assms by (simp add: mult.commute)
  have m2: "fmul (Fin (of_int (i + 1))) (Fin 20) = Fin (of_int (20 * (i + 1)))"
    using rnd_of_int [of "20 * (i + 1)"] assms by (simp add: mult.commute)
  have a1: "fadd (Fin (of_int 312)) (Fin (of_int (20 * i))) = Fin (of_int (312 + 20 * i))"
    using rnd_of_int [of "312 + 20 * i"] assms by simp
  have a2: "fadd (Fin (of_int 312)) (Fin (of_int (20 * (i + 1)))) = Fin (of_int (312 + 20 * (i + 1)))"
    using rnd_of_int [of "312 + 20 * (i + 1)"] assms by simp
  have a3: "fadd (Fin (of_int (312 + 20 * (i + 1)))) (Fin (of_int 1)) = Fin (of_int (312 + 20 * (i + 1) + 1))"
    using rnd_of_int [of "312 + 20 * (i + 1) + 1"] assms by simp
  show ?thesis
    unfolding bar_segment_def f ebind_Inr m1 m2 a1 a2 a3 py_int_of_int
    by (simp add: dumbbell_constants)
qed

lemma draw_bar_loop:
  "draw_bar p a img = for_loop (py_range 20) (bar_segment p a (Fin 20)) img"
proof -
  have "draw_bar p a img = for_loop (py_range bar_segments) (bar_segment p a (Fin 20)) img"
    by (simp only: draw_bar_def segment_width_value ebind_Inr)
  then show ?thesis
    by (simp add: bar_segments_def)
qed

subsection \<open>What a drawing step leaves alone\<close>

lemma same_outside_refl: "same_outside b img img"
  by (simp add: same_outside_def)

lemma same_outside_trans:
  assumes "same_outside b img1 img2" and "same_outside b img2 img3"
  shows "same_outside b img1 img3"
  using assms by (simp add: same_outside_def)

lemma same_outside_mono:
  assumes "same_outside (x0, y0, x1, y1) img img'"
    and "X0 \<le> x0" and "x1 \<le> X1" and "Y0 \<le> y0" and "y1 \<le> Y1"
  shows "same_outside (X0, Y0, X1, Y1) img img'"
proof -
  have "in_box (X0, Y0, X1, Y1) x y" if "in_box (x0, y0, x1, y1) x y" for x y
    using that assms(2-5) by (simp add: in_box_def)
  then show ?thesis
    using assms(1) unfolding same_outside_def by blast
qed

lemma same_outside_paint:
  assumes "\<And>x y. cover x y \<Longrightarrow> in_box b x y"
  shows "same_outside b img (paint cover c img)"
  using assms by (auto simp add: same_outside_def width_paint height_paint pixel_paint)

lemma same_outside_pixel:
  assumes "same_outside b img img'" and "\<not> in_box b x y"
  shows "pixel img' x y = pixel img x y" and "in_image img' x y = in_image img x y"
  using assms by (simp_all add: same_outside_def in_image_def)

lemma same_outside_in_image:
  assumes "same_outside b img img'"
  shows "in_image img' x y = in_image img x y"
  using assms by (simp add: same_outside_def in_image_def)

lemma rounded_cover_in_box:
  assumes "ell_in_box ell" and "0 \<le> radius" and "2 * radius \<le> x2 - x1" and "2 * radius \<le> y2 - y1"
    and "rounded_cover ell (x1, y1, x2, y2) radius x y"
  shows "in_box (x1, y1, x2, y2) x y"
  using assms(2-5)
  by (auto simp add: rounded_cover_def in_box_def dest!: ell_in_boxD [OF assms(1)])

lemma int_truediv_unit:
  assumes "0 \<le> i" and "i \<le> n" and "0 < n"
  shows "\<exists>q. int_truediv i n = Inr (Fin q) \<and> 0 \<le> q \<and> q \<le> 1"
proof -
  have "(0::rat) \<le> of_int i / of_int n" "(of_int i :: rat) / of_int n \<le> 1"
    using assms by simp_all
  from rnd_unit [OF this] obtain q where "rnd (of_int i / of_int n) = Fin q" "0 \<le> q" "q \<le> 1"
    by blast
  then show ?thesis
    using assms(3) by (simp add: int_truediv_def)
qed

text \<open>One segment of the bar stays inside the bar.\<close>

lemma bar_segment_frame:
  assumes "valid_color p" and "valid_color a" and "0 \<le> i" and "i < 20"
  shows "\<exists>img'. bar_segment p a (Fin 20) i img = Inr img' \<and> same_outside (312, 482, 713, 542) img img'"
proof -
  obtain q where q: "int_truediv i 19 = Inr (Fin q)" "0 \<le> q" "q \<le> 1"
    using int_truediv_unit [of i 19] assms(3,4) by auto
  obtain c where c: "interpolate_color p a (Fin q) = Inr c"
    using interpolate_color_valid [OF assms(1,2) q(2,3)] by blast
  have "bar_segment p a (Fin 20) i img =
      Inr (paint (in_box (312 + 20 * i, 482, 312 + 20 * (i + 1) + 1, 542)) c img)"
    using assms(3,4)
    by (simp add: bar_segment_rectangle q(1) c ebind_Inr rectangle_def reversed_def dumbbell_constants)
  moreover have "same_outside (312, 482, 713, 542) img
      (paint (in_box (312 + 20 * i, 482, 312 + 20 * (i + 1) + 1, 542)) c img)"
    using assms(3,4) by (intro same_outside_paint) (simp add: in_box_def)
  ultimately show ?thesis by simp
qed

lemma draw_bar_frame:
  assumes "valid_color p" and "valid_color a"
  shows "\<exists>img'. draw_bar p a img = Inr img' \<and> same_outside (312, 482, 713, 542) img img'"
proof -
  have "\<exists>img'. for_loop (py_range 20) (bar_segment p a (Fin 20)) img = Inr img' \<and>
      same_outside (312, 482, 713, 542) img img'"
  proof (rule for_loop_invariant)
    show "same_outside (312, 482, 713, 542) img img"
      by (rule same_outside_refl)
  next
    fix i s
    assume i: "i \<in> set (py_range 20)" and s: "same_outside (312, 482, 713, 542) img s"
    from i have "0 \<le> i" "i < 20"
      by (simp_all add: set_py_range)
    from bar_segment_frame [OF assms this] obtain s' where
      "bar_segment p a (Fin 20) i s = Inr s'" "same_outside (312, 482, 713, 542) s s'"
      by blast
    with s show "\<exists>s'. bar_segment p a (Fin 20) i s = Inr s' \<and> same_outside (312, 482, 713, 542) img s'"
      using same_outside_trans by blast
  qed
  then show ?thesis
    by (simp only: draw_bar_loop)
qed

text \<open>
  The dumbbell as five fills: the left plate, its inset, the bar, the right plate and its
  inset, the two inset colours being valid colours.
\<close>

lemma draw_dumbbell_steps:
  assumes "valid_color p" and "valid_color a"
  shows "\<exists>c1 c2 img3.
           interpolate_color p (COLORS Primary_light) (rnd (3 / 10)) = Inr c1 \<and> valid_color c1 \<and>
           interpolate_color a (COLORS White) (rnd (1 / 5)) = Inr c2 \<and> valid_color c2 \<and>
           draw_bar p a (paint (rounded_cover ell (312, 392, 392, 632) 20) c1
               (paint (rounded_cover ell (292, 372, 412, 652) 30) p img)) = Inr img3 \<and>
           same_outside (312, 482, 713, 542)
             (paint (rounded_cover ell (312, 392, 392, 632) 20) c1
               (paint (rounded_cover ell (292, 372, 412, 652) 30) p img)) img3 \<and>
           draw_dumbbell ell img p a =
             Inr (paint (rounded_cover ell (632, 392, 712, 632) 20) c2
               (paint (rounded_cover ell (612, 372, 732, 652) 30) a img3))"
proof -
  obtain q1 where q1: "rnd (3 / 10) = Fin q1" "0 \<le> q1" "q1 \<le> 1"
    using rnd_unit [of "3 / 10"] by auto
  obtain q2 where q2: "rnd (1 / 5) = Fin q2" "0 \<le> q2" "q2 \<le> 1"
    using rnd_unit [of "1 / 5"] by auto
  have vl: "valid_color (COLORS Primary_light)" and vw: "valid_color (COLORS White)"
    by (simp_all add: valid_color_def)
  obtain c1 where c1: "interpolate_color p (COLORS Primary_light) (Fin q1) = Inr c1" "valid_color c1"
    using interpolate_color_valid [OF assms(1) vl q1(2,3)] by blast
  obtain c2 where c2: "interpolate_color a (COLORS White) (Fin q2) = Inr c2" "valid_color c2"
    using interpolate_color_valid [OF assms(2) vw q2(2,3)] by blast
  define img2 where "img2 = paint (rounded_cover ell (312, 392, 392, 632) 20) c1
               (paint (rounded_cover ell (292, 372, 412, 652) 30) p img)"
  obtain img3 where img3: "draw_bar p a img2 = Inr img3" "same_outside (312, 482, 713, 542) img2 img3"
    using draw_bar_frame [OF assms] by blast
  have "draw_dumbbell ell img p a =
      Inr (paint (rounded_cover ell (632, 392, 712, 632) 20) c2
        (paint (rounded_cover ell (612, 372, 732, 652) 30) a img3))"
    unfolding draw_dumbbell_def dumbbell_constants q1(1) q2(1) c1(1) c2(1)
    by (simp add: draw_rounded_rect_paint ebind_Inr img3(1) [unfolded img2_def])
  with c1 c2 img3 q1(1) q2(1) show ?thesis
    unfolding img2_def by auto
qed

subsection \<open>The dumbbell\<close>

text \<open>
  C10. For valid colours, \<^verbatim>\<open>draw_dumbbell\<close> succeeds, keeps the size of the image and
  leaves every pixel outside the rectangle with left 292, top 372, right 732 and bottom 652
  (all inclusive) as it was. The ellipse rasteriser is assumed to stay inside its box.
\<close>

theorem draw_dumbbell_frame:
  assumes "ell_in_box ell" and "valid_color p" and "valid_color a"
  shows "\<exists>img'. draw_dumbbell ell img p a = Inr img' \<and>
           width img' = width img \<and> height img' = height img \<and>
           (\<forall>x y. \<not> (292 \<le> x \<and> x \<le> 732 \<and> 372 \<le> y \<and> y \<le> 652) \<longrightarrow>
              pixel img' x y = pixel img x y)"
proof -
  let ?B = "(292, 372, 732, 652) :: bbox"
  from draw_dumbbell_steps [OF assms(2,3), of ell img] obtain c1 c2 img3 where
    bar: "same_outside (312, 482, 713, 542)
             (paint (rounded_cover ell (312, 392, 392, 632) 20) c1
               (paint (rounded_cover ell (292, 372, 412, 652) 30) p img)) img3"
    and res: "draw_dumbbell ell img p a =
             Inr (paint (rounded_cover ell (632, 392, 712, 632) 20) c2
               (paint (rounded_cover ell (612, 372, 732, 652) 30) a img3))"
    by blast
  have rc: "same_outside ?B i (paint (rounded_cover ell (x1, y1, x2, y2) r) c i)"
    if "0 \<le> r" "2 * r \<le> x2 - x1" "2 * r \<le> y2 - y1" "292 \<le> x1" "x2 \<le> 732" "372 \<le> y1" "y2 \<le> 652"
    for x1 y1 x2 y2 r c i
  proof (rule same_outside_mono [OF _ that(4-7)])
    show "same_outside (x1, y1, x2, y2) i (paint (rounded_cover ell (x1, y1, x2, y2) r) c i)"
      by (intro same_outside_paint rounded_cover_in_box [OF assms(1) that(1-3)])
  qed
  have 1: "same_outside ?B img (paint (rounded_cover ell (292, 372, 412, 652) 30) p img)"
    by (rule rc) simp_all
  have 2: "same_outside ?B (paint (rounded_cover ell (292, 372, 412, 652) 30) p img)
      (paint (rounded_cover ell (312, 392, 392, 632) 20) c1
        (paint (rounded_cover ell (292, 372, 412, 652) 30) p img))"
    by (rule rc) simp_all
  have 3: "same_outside ?B (paint (rounded_cover ell (312, 392, 392, 632) 20) c1
        (paint (rounded_cover ell (292, 372, 412, 652) 30) p img)) img3"
    by (rule same_outside_mono [OF bar]) simp_all
  have 4: "same_outside ?B img3 (paint (rounded_cover ell (612, 372, 732, 652) 30) a img3)"
    by (rule rc) simp_all
  have 5: "same_outside ?B (paint (rounded_cover ell (612, 372, 732, 652) 30) a img3)
      (paint (rounded_cover ell (632, 392, 712, 632) 20) c2
        (paint (rounded_cover ell (612, 372, 732, 652) 30) a img3))"
    by (rule rc) simp_all
  have "same_outside ?B img (paint (rounded_cover ell (632, 392, 712, 632) 20) c2
        (paint (rounded_cover ell (612, 372, 732, 652) 30) a img3))"
    using 1 2 3 4 5 by (blast intro: same_outside_trans)
  then show ?thesis
    unfolding res by (simp add: same_outside_def in_box_def)
qed

theorem draw_dumbbell_frame_witness:
  "ell_in_box inscribed \<and> valid_color (180, 180, 180) \<and> valid_color (220, 220, 220) \<and>
   \<not> (292 \<le> (100::int) \<and> (100::int) \<le> 732 \<and> 372 \<le> (100::int) \<and> (100::int) \<le> 652) \<and>
   pixel_of (draw_dumbbell inscribed (Image_new 1024 (60, 60, 60)) (180, 180, 180) (220, 220, 220))
     100 100 = Some (60, 60, 60)"
proof -
  have v: "valid_color (180, 180, 180)" "valid_color (220, 220, 220)"
    by (simp_all add: valid_color_def)
  from draw_dumbbell_frame [OF inscribed_in_box v, of "Image_new 1024 (60, 60, 60)"]
  obtain img' where
    "draw_dumbbell inscribed (Image_new 1024 (60, 60, 60)) (180, 180, 180) (220, 220, 220) = Inr img'"
    "width img' = width (Image_new 1024 (60, 60, 60))"
    "height img' = height (Image_new 1024 (60, 60, 60))"
    "pixel img' 100 100 = pixel (Image_new 1024 (60, 60, 60)) 100 100"
    by auto
  then have "pixel_of (draw_dumbbell inscribed (Image_new 1024 (60, 60, 60)) (180, 180, 180)
      (220, 220, 220)) 100 100 = Some (60, 60, 60)"
    by (simp add: pixel_of_def in_image_def Image_new_def)
  with v inscribed_in_box show ?thesis
    by simp
qed

text \<open>The pixels of the left inset above and below the bar keep the inset colour.\<close>

lemma left_inset_pixel:
  assumes "ell_in_box ell" and "valid_color p" and "valid_color a"
    and "in_image img x y" and "rounded_cover ell (312, 392, 392, 632) 20 x y"
    and "y < 482 \<or> 542 < y"
  shows "\<exists>c. interpolate_color p (129, 140, 248) (rnd (3 / 10)) = Inr c \<and>
           pixel_of (draw_dumbbell ell img p a) x y = Some c"
proof -
  from draw_dumbbell_steps [OF assms(2,3), of ell img] obtain c1 c2 img3 where
    c1: "interpolate_color p (COLORS Primary_light) (rnd (3 / 10)) = Inr c1"
    and bar: "same_outside (312, 482, 713, 542)
             (paint (rounded_cover ell (312, 392, 392, 632) 20) c1
               (paint (rounded_cover ell (292, 372, 412, 652) 30) p img)) img3"
    and res: "draw_dumbbell ell img p a =
             Inr (paint (rounded_cover ell (632, 392, 712, 632) 20) c2
               (paint (rounded_cover ell (612, 372, 732, 652) 30) a img3))"
    by blast
  have box: "in_box (312, 392, 392, 632) x y"
    using assms(5) by (intro rounded_cover_in_box [OF assms(1) _ _ _ assms(5)]) simp_all
  then have x: "x \<le> 392"
    by (simp add: in_box_def)
  have nbar: "\<not> in_box (312, 482, 713, 542) x y"
    using assms(6) by (auto simp add: in_box_def)
  have n1: "\<not> rounded_cover ell (612, 372, 732, 652) 30 x y"
    using rounded_cover_in_box [OF assms(1), where radius = 30 and ?x1.0 = 612 and ?y1.0 = 372
        and ?x2.0 = 732 and ?y2.0 = 652 and x = x and y = y] x
    by (auto simp add: in_box_def)
  have n2: "\<not> rounded_cover ell (632, 392, 712, 632) 20 x y"
    using rounded_cover_in_box [OF assms(1), where radius = 20 and ?x1.0 = 632 and ?y1.0 = 392
        and ?x2.0 = 712 and ?y2.0 = 632 and x = x and y = y] x
    by (auto simp add: in_box_def)
  have p3: "pixel img3 x y = c1"
    using same_outside_pixel(1) [OF bar nbar] assms(4,5)
    by (simp add: pixel_paint in_image_paint)
  have i3: "in_image img3 x y"
    using same_outside_in_image [OF bar, of x y] assms(4)
    by (simp add: in_image_paint)
  have "pixel_of (draw_dumbbell ell img p a) x y = Some c1"
    unfolding res by (simp add: pixel_of_def in_image_paint pixel_paint n1 n2 p3 i3)
  moreover have "interpolate_color p (129, 140, 248) (rnd (3 / 10)) = Inr c1"
    using c1 by simp
  ultimately show ?thesis
    by blast
qed

text \<open>
  C2. For valid colours, every pixel of the image that the inset rounded rectangle of the
  left plate covers and that lies above or below the rows of the bar ends with the colour
  \<^verbatim>\<open>interpolate_color(primary, (129, 140, 248), 0.3)\<close>: the palette entry
  \<^verbatim>\<open>primary_light\<close> is used whatever the accent colour and the primary colour are,
  grays included. The ellipse rasteriser is assumed to stay inside its box.
\<close>

theorem draw_dumbbell_left_inset_colour:
  assumes "ell_in_box ell" and "valid_color p" and "valid_color a"
    and "in_image img x y" and "rounded_cover ell (312, 392, 392, 632) 20 x y"
    and "y < 482 \<or> 542 < y"
  shows "\<exists>c. interpolate_color p (129, 140, 248) (rnd (3 / 10)) = Inr c \<and>
           pixel_of (draw_dumbbell ell img p a) x y = Some c"
  using assms by (rule left_inset_pixel)

theorem draw_dumbbell_left_inset_colour_witness:
  "ell_in_box inscribed \<and> valid_color (180, 180, 180) \<and> valid_color (220, 220, 220) \<and>
   in_image (Image_new 1024 (60, 60, 60)) 350 400 \<and>
   rounded_cover inscribed (312, 392, 392, 632) 20 350 400 \<and> ((400::int) < 482 \<or> (542::int) < 400) \<and>
   (\<exists>c. interpolate_color (180, 180, 180) (129, 140, 248) (rnd (3 / 10)) = Inr c \<and>
      pixel_of (draw_dumbbell inscribed (Image_new 1024 (60, 60, 60)) (180, 180, 180)
        (220, 220, 220)) 350 400 = Some c)"
proof -
  have v: "valid_color (180, 180, 180)" "valid_color (220, 220, 220)"
    by (simp_all add: valid_color_def)
  have i: "in_image (Image_new 1024 (60, 60, 60)) 350 400"
    by (simp add: in_image_Image_new)
  have r: "rounded_cover inscribed (312, 392, 392, 632) 20 350 400"
    by (simp add: rounded_cover_def in_box_def)
  have y: "(400::int) < 482 \<or> (542::int) < 400"
    by simp
  from draw_dumbbell_left_inset_colour [OF inscribed_in_box v i r y] inscribed_in_box v i r y
  show ?thesis
    by blast
qed

subsection \<open>The bar, segment by segment\<close>








section \<open>The radial gradient\<close>

subsection \<open>The integer square root\<close>

lemma isqrt_nonpos: "n \<le> 0 \<Longrightarrow> isqrt n = 0"
  by (subst isqrt.simps) simp

lemma isqrt_pos: "0 < n \<Longrightarrow> isqrt n = isqrt_step n (isqrt (n div 4))"
  by (subst isqrt.simps) simp

lemma isqrt_spec:
  "0 \<le> n \<Longrightarrow> 0 \<le> isqrt n \<and> isqrt n * isqrt n \<le> n \<and> n < (isqrt n + 1) * (isqrt n + 1)"
proof (induction n rule: isqrt.induct)
  case (1 n)
  show ?case
  proof (cases "n \<le> 0")
    case True
    with 1(2) have "n = 0" by simp
    then show ?thesis by (simp add: isqrt_nonpos)
  next
    case False
    define q where "q = isqrt (n div 4)"
    have "0 \<le> n div 4"
      using 1(2) by simp
    with 1(1) False have q: "0 \<le> q" "q * q \<le> n div 4" "n div 4 < (q + 1) * (q + 1)"
      by (simp_all add: q_def)
    have lo: "(2 * q) * (2 * q) \<le> n"
    proof -
      have "4 * (q * q) \<le> 4 * (n div 4)"
        using q(2) by simp
      also have "\<dots> \<le> n"
        by simp
      finally show ?thesis
        by (simp add: algebra_simps)
    qed
    have hi: "n < (2 * q + 2) * (2 * q + 2)"
    proof -
      have "n div 4 + 1 \<le> (q + 1) * (q + 1)"
        using q(3) by simp
      then have "4 * (n div 4) + 4 \<le> 4 * ((q + 1) * (q + 1))"
        by simp
      moreover have "n < 4 * (n div 4) + 4"
        by linarith
      ultimately show ?thesis
        by (simp add: algebra_simps)
    qed
    have e: "isqrt n = isqrt_step n q"
      using False by (simp add: q_def isqrt_pos)
    show ?thesis
    proof (cases "(2 * q + 1) * (2 * q + 1) \<le> n")
      case True
      then have "isqrt n = 2 * q + 1"
        by (simp add: e isqrt_step_def)
      with True hi q(1) show ?thesis
        by (simp add: algebra_simps)
    next
      case nle: False
      then have "isqrt n = 2 * q"
        by (simp add: e isqrt_step_def)
      with nle lo q(1) show ?thesis
        by (simp add: algebra_simps)
    qed
  qed
qed

lemma isqrt_mono:
  assumes "0 \<le> a" and "a \<le> b"
  shows "isqrt a \<le> isqrt b"
proof (rule ccontr)
  assume "\<not> isqrt a \<le> isqrt b"
  then have "isqrt b + 1 \<le> isqrt a"
    by simp
  moreover have "0 \<le> isqrt b + 1"
    using isqrt_spec [of b] assms by simp
  ultimately have "(isqrt b + 1) * (isqrt b + 1) \<le> isqrt a * isqrt a"
    by (intro mult_mono) simp_all
  with isqrt_spec [of a] isqrt_spec [of b] assms show False
    by simp
qed

lemma isqrt_nonneg: "0 \<le> isqrt n"
proof (cases "0 \<le> n")
  case True
  then show ?thesis using isqrt_spec by blast
next
  case False
  then show ?thesis by (simp add: isqrt_nonpos)
qed

lemma sqrt_approx_nonneg: "0 \<le> sqrt_approx x"
proof -
  define m where "m = isqrt \<lfloor>x * 2 ^ 108\<rfloor>"
  have "0 \<le> m"
    unfolding m_def by (rule isqrt_nonneg)
  then have m: "(0::rat) \<le> of_int m"
    by simp
  have "sqrt_approx x = of_int m / 2 ^ 54 \<or> sqrt_approx x = (of_int m + 1 / 2) / 2 ^ 54"
    unfolding sqrt_approx_def Let_def m_def by (rule if_split [THEN iffD2]) blast
  moreover have "(0::rat) \<le> of_int m / 2 ^ 54" "(0::rat) \<le> (of_int m + 1 / 2) / 2 ^ 54"
    using m by simp_all
  ultimately show ?thesis
    by (elim disjE) simp_all
qed

lemma sqrt_approx_0: "sqrt_approx 0 = 0"
  by (simp add: sqrt_approx_def isqrt_nonpos)

lemma sqrt_approx_mono:
  assumes "0 \<le> x" and "x \<le> y"
  shows "sqrt_approx x \<le> sqrt_approx y"
proof -
  define Nx Ny where "Nx = \<lfloor>x * 2 ^ 108\<rfloor>" and "Ny = \<lfloor>y * 2 ^ 108\<rfloor>"
  define mx my where "mx = isqrt Nx" and "my = isqrt Ny"
  have N: "0 \<le> Nx" "Nx \<le> Ny"
    using assms by (simp_all add: Nx_def Ny_def floor_mono)
  have m: "mx \<le> my"
    using N by (simp add: mx_def my_def isqrt_mono)
  have sx: "mx * mx \<le> Nx" and sy: "my * my \<le> Ny"
    using isqrt_spec [of Nx] isqrt_spec [of Ny] N by (simp_all add: mx_def my_def)
  have ax: "sqrt_approx x = (if mx * mx = Nx then of_int mx / 2 ^ 54 else (of_int mx + 1 / 2) / 2 ^ 54)"
    by (simp add: sqrt_approx_def Let_def Nx_def mx_def)
  have ay: "sqrt_approx y = (if my * my = Ny then of_int my / 2 ^ 54 else (of_int my + 1 / 2) / 2 ^ 54)"
    by (simp add: sqrt_approx_def Let_def Ny_def my_def)
  show ?thesis
  proof (cases "mx = my")
    case True
    show ?thesis
    proof (cases "mx * mx = Nx")
      case True
      then show ?thesis
        using \<open>mx = my\<close> by (simp add: ax ay divide_right_mono)
    next
      case False
      with sx have "mx * mx < Nx" by simp
      with N(2) \<open>mx = my\<close> have "my * my \<noteq> Ny" by simp
      with False \<open>mx = my\<close> show ?thesis
        by (simp add: ax ay)
    qed
  next
    case False
    with m have "mx + 1 \<le> my" by simp
    then have "(of_int (mx + 1) :: rat) \<le> of_int my"
      by (simp only: of_int_le_iff)
    then have "(of_int mx :: rat) + 1 / 2 \<le> of_int my"
      by simp
    then have "((of_int mx :: rat) + 1 / 2) / 2 ^ 54 \<le> of_int my / 2 ^ 54"
      by (simp add: divide_right_mono)
    moreover have "sqrt_approx x \<le> ((of_int mx :: rat) + 1 / 2) / 2 ^ 54"
      by (simp add: ax divide_right_mono)
    moreover have "(of_int my :: rat) / 2 ^ 54 \<le> sqrt_approx y"
      by (simp add: ay divide_right_mono)
    ultimately show ?thesis
      by linarith
  qed
qed

subsection \<open>Distances and the ratio\<close>

lemma float_of_int_Fin:
  assumes "\<bar>n\<bar> \<le> 2 ^ 1001"
  shows "float_of_int n = Inr (Fin (round_fin (of_int n)))"
proof -
  have "rnd (of_int n) = Fin (round_fin (of_int n))"
    using of_int_abs_le_pow2 [OF assms] by (intro rnd_Fin [where k = 1001]) simp_all
  then show ?thesis
    by (simp add: float_of_int_def)
qed

lemma math_sqrt_value:
  assumes "0 \<le> k" and "k \<le> 2 ^ 1001"
  shows "math_sqrt k = Inr (Fin (round_fin (sqrt_approx (round_fin (of_int k)))))"
proof -
  have "float_of_int k = Inr (Fin (round_fin (of_int k)))"
    using assms by (intro float_of_int_Fin) simp
  moreover have "0 \<le> round_fin (of_int k)"
    using assms(1) by (intro round_fin_nonneg) simp
  ultimately show ?thesis
    by (simp add: math_sqrt_def ebind_Inr)
qed

lemma math_sqrt_2: "math_sqrt 2 = Inr (Fin (6369051672525773 / 4503599627370496))"
  by code_simp

lemma round_fin_1: "round_fin 1 = 1"
  using round_fin_of_int [of 1] by simp

lemma max_dist_of_value:
  assumes "2 \<le> n" and "n < 2 ^ 500"
  shows "\<exists>m. max_dist_of n = Inr (Fin m) \<and> 1 \<le> m"
proof -
  define h where "h = int (n div 2)"
  define H where "H = round_fin (of_int h)"
  define s2 :: rat where "s2 = 6369051672525773 / 4503599627370496"
  have h: "1 \<le> h" "h \<le> 2 ^ 500"
  proof -
    show "1 \<le> h" using assms(1) by (simp add: h_def)
    have "n div 2 \<le> n" by simp
    also have "n \<le> 2 ^ 500" using assms(2) by simp
    finally have "int (n div 2) \<le> int (2 ^ 500)" by (simp only: of_nat_le_iff)
    then show "h \<le> 2 ^ 500" by (simp add: h_def)
  qed
  have habs: "\<bar>of_int h :: rat\<bar> \<le> pow2 500"
    using of_int_abs_le_pow2 [of h 500] h by simp
  have fh: "float_of_int h = Inr (Fin H)"
  proof -
    have "rnd (of_int h) = Fin (round_fin (of_int h))"
      using habs by (rule rnd_Fin) simp_all
    then show ?thesis by (simp add: float_of_int_def H_def)
  qed
  have H1: "1 \<le> H"
  proof -
    have "round_fin 1 \<le> round_fin (of_int h)"
      using h(1) by (intro round_fin_mono) simp
    then show ?thesis by (simp add: H_def round_fin_1)
  qed
  have H2: "H \<le> pow2 500"
    using round_fin_abs_le [OF habs] by (simp add: H_def)
  have s2: "1 \<le> s2" "s2 \<le> 2"
    by (simp_all add: s2_def)
  have "s2 * H \<le> 2 * pow2 500"
    using s2 H1 H2 by (intro mult_mono) simp_all
  also have "\<dots> = pow2 501"
    using pow2_add [of 1 500] by (simp add: pow2_def)
  finally have up: "s2 * H \<le> pow2 501" .
  have "1 * 1 \<le> s2 * H"
    using s2 H1 by (intro mult_mono) simp_all
  then have lo: "1 \<le> s2 * H" by simp
  then have "\<bar>s2 * H\<bar> \<le> pow2 501"
    using up by simp
  then have r: "rnd (s2 * H) = Fin (round_fin (s2 * H))"
    by (rule rnd_Fin) simp_all
  have "round_fin 1 \<le> round_fin (s2 * H)"
    using lo by (rule round_fin_mono)
  then have "1 \<le> round_fin (s2 * H)"
    by (simp add: round_fin_1)
  moreover have "max_dist_of n = Inr (Fin (round_fin (s2 * H)))"
    unfolding max_dist_of_def math_sqrt_2 ebind_Inr h_def [symmetric] fh
    using r by (simp add: s2_def)
  ultimately show ?thesis by blast
qed

lemma py_min_rnd:
  assumes "0 \<le> x"
  shows "py_min (rnd x) (Fin 1) = Fin (min (round_fin x) 1)"
proof -
  define y where "y = round_fin x"
  have y: "0 \<le> y"
    unfolding y_def using assms by (rule round_fin_nonneg)
  show ?thesis
  proof (cases "y = 0")
    case True
    then show ?thesis
      by (simp add: rnd_def y_def [symmetric] py_min_def)
  next
    case False
    with y have pos: "0 < y" by simp
    show ?thesis
    proof (cases "1024 \<le> ilog2 \<bar>y\<bar>")
      case True
      have "pow2 0 \<le> pow2 (ilog2 y)"
        using True pos by (intro pow2_mono) simp
      also have "\<dots> \<le> y"
        using ilog2_bounds [OF pos] by simp
      finally have "1 \<le> y" by (simp add: pow2_def)
      with True pos False show ?thesis
        by (simp add: rnd_def y_def [symmetric] py_min_def Let_def)
    next
      case nbig: False
      with False show ?thesis
        by (simp add: rnd_def y_def [symmetric] py_min_def Let_def min_def)
    qed
  qed
qed

lemma square_dist_bound:
  assumes "0 \<le> x" and "x < int n" and "0 \<le> y" and "y < int n" and "n < 2 ^ 500"
  shows "0 \<le> (x - int (n div 2)) ^ 2 + (y - int (n div 2)) ^ 2"
    and "(x - int (n div 2)) ^ 2 + (y - int (n div 2)) ^ 2 \<le> 2 ^ 1001"
proof -
  define h where "h = int (n div 2)"
  have h: "0 \<le> h" "h \<le> int n"
    by (simp_all add: h_def)
  have n: "int n \<le> 2 ^ 500"
  proof -
    have "int n \<le> int (2 ^ 500)" using assms(5) by (simp only: of_nat_le_iff)
    then show ?thesis by simp
  qed
  have sq: "(a - h) ^ 2 \<le> (2 ^ 500) ^ 2" if "0 \<le> a" "a < int n" for a :: int
  proof -
    have "\<bar>a - h\<bar> \<le> 2 ^ 500"
      using that h n by simp
    then have "\<bar>a - h\<bar> ^ 2 \<le> (2 ^ 500) ^ 2"
      by (intro power_mono) simp_all
    then show ?thesis by simp
  qed
  show "0 \<le> (x - int (n div 2)) ^ 2 + (y - int (n div 2)) ^ 2"
    by simp
  have "(x - h) ^ 2 + (y - h) ^ 2 \<le> (2 ^ 500) ^ 2 + (2 ^ 500) ^ 2"
    using sq [OF assms(1,2)] sq [OF assms(3,4)] by linarith
  also have "\<dots> = (2 ^ 1001 :: int)"
    by (simp add: power_mult [symmetric])
  finally show "(x - int (n div 2)) ^ 2 + (y - int (n div 2)) ^ 2 \<le> 2 ^ 1001"
    by (simp add: h_def)
qed

text \<open>The ratio of a pixel: the distance over the largest distance, rounded, and at most 1.\<close>

lemma gradient_ratio_value:
  assumes "0 < m" and "0 \<le> (x - int (n div 2)) ^ 2 + (y - int (n div 2)) ^ 2"
    and "(x - int (n div 2)) ^ 2 + (y - int (n div 2)) ^ 2 \<le> 2 ^ 1001"
  shows "gradient_ratio n (Fin m) x y =
           Inr (Fin (min (round_fin (round_fin (sqrt_approx (round_fin
             (of_int ((x - int (n div 2)) ^ 2 + (y - int (n div 2)) ^ 2)))) / m)) 1))"
proof -
  define d where "d = round_fin (sqrt_approx (round_fin
      (of_int ((x - int (n div 2)) ^ 2 + (y - int (n div 2)) ^ 2))))"
  have d: "0 \<le> d"
    unfolding d_def by (intro round_fin_nonneg sqrt_approx_nonneg)
  have s: "math_sqrt ((x - int (n div 2)) ^ 2 + (y - int (n div 2)) ^ 2) = Inr (Fin d)"
    unfolding d_def by (rule math_sqrt_value [OF assms(2,3)])
  have "0 \<le> d / m"
    using d assms(1) by simp
  then have "py_min (rnd (d / m)) (Fin 1) = Fin (min (round_fin (d / m)) 1)"
    by (rule py_min_rnd)
  then show ?thesis
    unfolding gradient_ratio_def s ebind_Inr d_def [symmetric]
    using assms(1) by (simp add: ebind_Inr)
qed

lemma gradient_ratio_unit:
  assumes "0 < m" and "0 \<le> x" and "x < int n" and "0 \<le> y" and "y < int n" and "n < 2 ^ 500"
  shows "\<exists>r. gradient_ratio n (Fin m) x y = Inr (Fin r) \<and> 0 \<le> r \<and> r \<le> 1"
proof -
  note b = square_dist_bound [OF assms(2-6)]
  define d where "d = round_fin (sqrt_approx (round_fin
      (of_int ((x - int (n div 2)) ^ 2 + (y - int (n div 2)) ^ 2))))"
  have "0 \<le> d"
    unfolding d_def by (intro round_fin_nonneg sqrt_approx_nonneg)
  then have "0 \<le> d / m"
    using assms(1) by simp
  then have "0 \<le> round_fin (d / m)"
    by (rule round_fin_nonneg)
  then have "0 \<le> min (round_fin (d / m)) 1" "min (round_fin (d / m)) 1 \<le> 1"
    by simp_all
  then show ?thesis
    using gradient_ratio_value [OF assms(1) b] unfolding d_def by blast
qed

lemma gradient_color_interpolate:
  "gradient_color n c0 c1 md x y = ebind (gradient_ratio n md x y) (interpolate_color c0 c1)"
proof -
  obtain r0 g0 b0 r1 g1 b1 where c: "c0 = (r0, g0, b0)" "c1 = (r1, g1, b1)"
    by (metis prod_cases3)
  have "interpolate_color (r0, g0, b0) (r1, g1, b1) =
      (\<lambda>ratio. ebind (lerp_channel r0 r1 ratio) (\<lambda>r.
        ebind (lerp_channel g0 g1 ratio) (\<lambda>g.
        ebind (lerp_channel b0 b1 ratio) (\<lambda>b. Inr (r, g, b)))))"
    by (simp add: fun_eq_iff interpolate_color_def)
  then show ?thesis
    by (simp add: c gradient_color_def)
qed

subsection \<open>The two loops\<close>

lemma row_loop:
  assumes "\<And>x. x \<in> set xs \<Longrightarrow> F x y = Inr (col x y)"
    and "\<And>x. x \<in> set xs \<Longrightarrow> in_image img x y"
  shows "\<exists>img'. for_loop xs (\<lambda>x img. ebind (F x y) (putpixel img x y)) img = Inr img' \<and>
           width img' = width img \<and> height img' = height img \<and>
           (\<forall>u v. pixel img' u v = (if v = y \<and> u \<in> set xs then col u y else pixel img u v))"
  using assms
proof (induction xs arbitrary: img)
  case Nil
  then show ?case by simp
next
  case (Cons x xs)
  define img1 where "img1 = img\<lparr>pixel := (\<lambda>u v. if u = x \<and> v = y then col x y else pixel img u v)\<rparr>"
  have step: "ebind (F x y) (putpixel img x y) = Inr img1"
    using Cons.prems(1) [of x] Cons.prems(2) [of x]
    by (simp add: ebind_Inr putpixel_def img1_def)
  have size1: "width img1 = width img" "height img1 = height img"
    by (simp_all add: img1_def)
  have "\<exists>img'. for_loop xs (\<lambda>x img. ebind (F x y) (putpixel img x y)) img1 = Inr img' \<and>
           width img' = width img1 \<and> height img' = height img1 \<and>
           (\<forall>u v. pixel img' u v = (if v = y \<and> u \<in> set xs then col u y else pixel img1 u v))"
  proof (rule Cons.IH)
    fix u assume "u \<in> set xs"
    then show "F u y = Inr (col u y)"
      by (simp add: Cons.prems(1))
    from \<open>u \<in> set xs\<close> have "in_image img u y"
      by (simp add: Cons.prems(2))
    then show "in_image img1 u y"
      by (simp add: in_image_def size1)
  qed
  then obtain img' where
    l: "for_loop xs (\<lambda>x img. ebind (F x y) (putpixel img x y)) img1 = Inr img'"
    and s: "width img' = width img1" "height img' = height img1"
    and p: "\<And>u v. pixel img' u v = (if v = y \<and> u \<in> set xs then col u y else pixel img1 u v)"
    by blast
  have "\<And>u v. pixel img' u v = (if v = y \<and> u \<in> set (x # xs) then col u y else pixel img u v)"
    by (auto simp add: p img1_def)
  with l s size1 step show ?case
    by simp
qed

lemma image_loop:
  assumes "\<And>x y. x \<in> set xs \<Longrightarrow> y \<in> set ys \<Longrightarrow> F x y = Inr (col x y)"
    and "\<And>x y. x \<in> set xs \<Longrightarrow> y \<in> set ys \<Longrightarrow> in_image img x y"
  shows "\<exists>img'. for_loop ys (\<lambda>y. for_loop xs (\<lambda>x img. ebind (F x y) (putpixel img x y))) img = Inr img' \<and>
           width img' = width img \<and> height img' = height img \<and>
           (\<forall>u v. pixel img' u v = (if v \<in> set ys \<and> u \<in> set xs then col u v else pixel img u v))"
  using assms
proof (induction ys arbitrary: img)
  case Nil
  then show ?case by simp
next
  case (Cons y ys)
  have "\<exists>img'. for_loop xs (\<lambda>x img. ebind (F x y) (putpixel img x y)) img = Inr img' \<and>
           width img' = width img \<and> height img' = height img \<and>
           (\<forall>u v. pixel img' u v = (if v = y \<and> u \<in> set xs then col u y else pixel img u v))"
    by (rule row_loop) (simp_all add: Cons.prems)
  then obtain img1 where
    l1: "for_loop xs (\<lambda>x img. ebind (F x y) (putpixel img x y)) img = Inr img1"
    and s1: "width img1 = width img" "height img1 = height img"
    and p1: "\<And>u v. pixel img1 u v = (if v = y \<and> u \<in> set xs then col u y else pixel img u v)"
    by blast
  have "\<exists>img'. for_loop ys (\<lambda>y. for_loop xs (\<lambda>x img. ebind (F x y) (putpixel img x y))) img1 = Inr img' \<and>
           width img' = width img1 \<and> height img' = height img1 \<and>
           (\<forall>u v. pixel img' u v = (if v \<in> set ys \<and> u \<in> set xs then col u v else pixel img1 u v))"
  proof (rule Cons.IH)
    fix u v assume uv: "u \<in> set xs" "v \<in> set ys"
    then show "F u v = Inr (col u v)"
      by (simp add: Cons.prems(1))
    from uv have "in_image img u v"
      by (simp add: Cons.prems(2))
    then show "in_image img1 u v"
      by (simp add: in_image_def s1)
  qed
  then obtain img' where
    l: "for_loop ys (\<lambda>y. for_loop xs (\<lambda>x img. ebind (F x y) (putpixel img x y))) img1 = Inr img'"
    and s: "width img' = width img1" "height img' = height img1"
    and p: "\<And>u v. pixel img' u v = (if v \<in> set ys \<and> u \<in> set xs then col u v else pixel img1 u v)"
    by blast
  have "\<And>u v. pixel img' u v = (if v \<in> set (y # ys) \<and> u \<in> set xs then col u v else pixel img u v)"
    by (auto simp add: p p1)
  with l s s1 l1 show ?case
    by simp
qed

text \<open>
  The gradient of a size from 2 on: no exception, an image of that size, and every pixel
  holds the colour computed for it.
\<close>

lemma create_radial_gradient_pixels:
  assumes "2 \<le> n" and "n < 2 ^ 500" and "valid_color c0" and "valid_color c1"
  shows "\<exists>m img. max_dist_of n = Inr (Fin m) \<and> 1 \<le> m \<and>
           create_radial_gradient n c0 c1 = Inr img \<and> width img = n \<and> height img = n \<and>
           (\<forall>x y. 0 \<le> x \<and> x < int n \<and> 0 \<le> y \<and> y < int n \<longrightarrow>
              gradient_color n c0 c1 (Fin m) x y = Inr (pixel img x y))"
proof -
  obtain m where m: "max_dist_of n = Inr (Fin m)" "1 \<le> m"
    using max_dist_of_value [OF assms(1,2)] by blast
  then have mpos: "0 < m" by simp
  define col where "col x y = projr (gradient_color n c0 c1 (Fin m) x y)" for x y
  have ok: "gradient_color n c0 c1 (Fin m) x y = Inr (col x y)"
    if "x \<in> set (py_range n)" "y \<in> set (py_range n)" for x y
  proof -
    from that have r: "0 \<le> x" "x < int n" "0 \<le> y" "y < int n"
      by (simp_all add: set_py_range)
    obtain q where q: "gradient_ratio n (Fin m) x y = Inr (Fin q)" "0 \<le> q" "q \<le> 1"
      using gradient_ratio_unit [OF mpos r assms(2)] by blast
    obtain c where "interpolate_color c0 c1 (Fin q) = Inr c"
      using interpolate_color_valid [OF assms(3,4) q(2,3)] by blast
    then have "gradient_color n c0 c1 (Fin m) x y = Inr c"
      by (simp add: gradient_color_interpolate q(1) ebind_Inr)
    then show ?thesis
      by (simp add: col_def)
  qed
  have inside: "in_image (Image_new n c0) x y"
    if "x \<in> set (py_range n)" "y \<in> set (py_range n)" for x y
    using that by (simp add: set_py_range in_image_Image_new)
  have body: "gradient_pixel n c0 c1 (Fin m) =
      (\<lambda>y x img. ebind (gradient_color n c0 c1 (Fin m) x y) (putpixel img x y))"
    by (simp add: fun_eq_iff gradient_pixel_def)
  from image_loop [of "py_range n" "py_range n" "gradient_color n c0 c1 (Fin m)" col
      "Image_new n c0", OF ok inside]
  obtain img where
    l: "for_loop (py_range n) (\<lambda>y. for_loop (py_range n)
          (\<lambda>x img. ebind (gradient_color n c0 c1 (Fin m) x y) (putpixel img x y)))
          (Image_new n c0) = Inr img"
    and s: "width img = width (Image_new n c0)" "height img = height (Image_new n c0)"
    and p: "\<And>u v. pixel img u v =
        (if v \<in> set (py_range n) \<and> u \<in> set (py_range n) then col u v
         else pixel (Image_new n c0) u v)"
    by blast
  have 1: "create_radial_gradient n c0 c1 = Inr img"
    by (simp add: create_radial_gradient_def m(1) ebind_Inr body l)
  have 2: "width img = n" "height img = n"
    using s by (simp_all add: Image_new_def)
  have 3: "gradient_color n c0 c1 (Fin m) x y = Inr (pixel img x y)"
    if "0 \<le> x \<and> x < int n \<and> 0 \<le> y \<and> y < int n" for x y
  proof -
    from that have in_r: "x \<in> set (py_range n)" "y \<in> set (py_range n)"
      by (simp_all add: set_py_range)
    then show ?thesis
      by (simp add: ok p)
  qed
  from m 1 2 3 show ?thesis
    by blast
qed

lemma interpolate_color_0:
  assumes "valid_color c0" and "valid_color c1"
  shows "interpolate_color c0 c1 (Fin 0) = Inr c0"
proof -
  obtain r0 g0 b0 r1 g1 b1 where c: "c0 = (r0, g0, b0)" "c1 = (r1, g1, b1)"
    by (metis prod_cases3)
  note a0 = valid_color_abs [OF assms(1) [unfolded c]] and a1 = valid_color_abs [OF assms(2) [unfolded c]]
  show ?thesis
    unfolding c by (intro interpolate_color_channels lerp_channel_0 a0 a1)
qed

lemma interpolate_color_1:
  assumes "valid_color c0" and "valid_color c1"
  shows "interpolate_color c0 c1 (Fin 1) = Inr c1"
proof -
  obtain r0 g0 b0 r1 g1 b1 where c: "c0 = (r0, g0, b0)" "c1 = (r1, g1, b1)"
    by (metis prod_cases3)
  note a0 = valid_color_abs [OF assms(1) [unfolded c]] and a1 = valid_color_abs [OF assms(2) [unfolded c]]
  show ?thesis
    unfolding c by (intro interpolate_color_channels lerp_channel_1 a0 a1)
qed

lemma max_dist_of_6: "max_dist_of 6 = Inr (Fin (2388394377197165 / 562949953421312))"
  by code_simp

lemma corner_6:
  "gradient_color 6 (0, 0, 0) (255, 255, 255) (Fin (2388394377197165 / 562949953421312)) 0 0
     = Inr (254, 254, 254)"
  by code_simp

lemma max_dist_of_1: "max_dist_of 1 = Inr (Fin 0)"
  by code_simp

lemma corner_1: "gradient_color 1 (60, 60, 60) (30, 30, 30) (Fin 0) 0 0 = Inl ZeroDivisionError"
  by code_simp

text \<open>
  C3, as amended. For every size \<open>n\<close> from 2 on (below \<open>2 ^ 500\<close>) and two valid
  colours, \<^verbatim>\<open>create_radial_gradient\<close> raises nothing and returns an \<open>n\<close> by \<open>n\<close>
  image; the colour of the pixel \<open>(x, y)\<close> is \<^verbatim>\<open>interpolate_color\<close> of the two colours
  at the ratio the code computes, \<^verbatim>\<open>min(dist / max_dist, 1.0)\<close> with the centre
  \<open>(n div 2, n div 2)\<close>, a float between 0 and 1; the pixel at the centre has the centre
  colour; every pixel whose computed distance is at least the computed largest distance has
  the edge colour; and the ratio does not decrease when the squared distance to the centre
  grows.
\<close>

theorem create_radial_gradient_spec:
  assumes "2 \<le> n" and "n < 2 ^ 500" and "valid_color c0" and "valid_color c1"
  shows "\<exists>m img. max_dist_of n = Inr (Fin m) \<and>
           create_radial_gradient n c0 c1 = Inr img \<and> width img = n \<and> height img = n \<and>
           (\<forall>x y. 0 \<le> x \<and> x < int n \<and> 0 \<le> y \<and> y < int n \<longrightarrow>
              (\<exists>r. gradient_ratio n (Fin m) x y = Inr (Fin r) \<and> 0 \<le> r \<and> r \<le> 1 \<and>
                 interpolate_color c0 c1 (Fin r) = Inr (pixel img x y))) \<and>
           pixel img (int (n div 2)) (int (n div 2)) = c0 \<and>
           (\<forall>x y d. 0 \<le> x \<and> x < int n \<and> 0 \<le> y \<and> y < int n \<and>
              math_sqrt ((x - int (n div 2)) ^ 2 + (y - int (n div 2)) ^ 2) = Inr (Fin d) \<and>
              m \<le> d \<longrightarrow> pixel img x y = c1) \<and>
           (\<forall>x y x' y' r r'. 0 \<le> x \<and> x < int n \<and> 0 \<le> y \<and> y < int n \<and>
              0 \<le> x' \<and> x' < int n \<and> 0 \<le> y' \<and> y' < int n \<and>
              (x - int (n div 2)) ^ 2 + (y - int (n div 2)) ^ 2
                \<le> (x' - int (n div 2)) ^ 2 + (y' - int (n div 2)) ^ 2 \<and>
              gradient_ratio n (Fin m) x y = Inr (Fin r) \<and>
              gradient_ratio n (Fin m) x' y' = Inr (Fin r') \<longrightarrow> r \<le> r')"
proof -
  define h where "h = int (n div 2)"
  define dv where "dv x y = round_fin (sqrt_approx (round_fin (of_int ((x - h) ^ 2 + (y - h) ^ 2))))"
    for x y :: int
  obtain m img where m: "max_dist_of n = Inr (Fin m)" "1 \<le> m"
    and g: "create_radial_gradient n c0 c1 = Inr img" "width img = n" "height img = n"
    and px: "\<And>x y. 0 \<le> x \<and> x < int n \<and> 0 \<le> y \<and> y < int n \<Longrightarrow>
              gradient_color n c0 c1 (Fin m) x y = Inr (pixel img x y)"
    using create_radial_gradient_pixels [OF assms] by blast
  have mpos: "0 < m" using m(2) by simp
  have ratio: "gradient_ratio n (Fin m) x y = Inr (Fin (min (round_fin (dv x y / m)) 1))"
    if "0 \<le> x \<and> x < int n \<and> 0 \<le> y \<and> y < int n" for x y
    using gradient_ratio_value [OF mpos square_dist_bound [of x n y]] that assms(2)
    by (simp add: dv_def h_def)
  have sq: "math_sqrt ((x - h) ^ 2 + (y - h) ^ 2) = Inr (Fin (dv x y))"
    if "0 \<le> x \<and> x < int n \<and> 0 \<le> y \<and> y < int n" for x y
    using math_sqrt_value [OF square_dist_bound [of x n y]] that assms(2)
    by (simp add: dv_def h_def)
  have col: "interpolate_color c0 c1 (Fin (min (round_fin (dv x y / m)) 1)) = Inr (pixel img x y)"
    if "0 \<le> x \<and> x < int n \<and> 0 \<le> y \<and> y < int n" for x y
    using px [OF that] by (simp add: gradient_color_interpolate ratio [OF that] ebind_Inr)
  have 1: "\<exists>r. gradient_ratio n (Fin m) x y = Inr (Fin r) \<and> 0 \<le> r \<and> r \<le> 1 \<and>
                 interpolate_color c0 c1 (Fin r) = Inr (pixel img x y)"
    if "0 \<le> x \<and> x < int n \<and> 0 \<le> y \<and> y < int n" for x y
  proof -
    have "0 \<le> dv x y / m"
      using mpos by (simp add: dv_def round_fin_nonneg sqrt_approx_nonneg)
    then have "0 \<le> round_fin (dv x y / m)"
      by (rule round_fin_nonneg)
    then have "0 \<le> min (round_fin (dv x y / m)) 1" "min (round_fin (dv x y / m)) 1 \<le> 1"
      by simp_all
    with ratio [OF that] col [OF that] show ?thesis
      by blast
  qed
  have 2: "pixel img h h = c0"
  proof -
    have c: "0 \<le> h \<and> h < int n \<and> 0 \<le> h \<and> h < int n"
      using assms(1) by (simp add: h_def)
    have "dv h h = 0"
      by (simp add: dv_def round_fin_0 sqrt_approx_0)
    then have "interpolate_color c0 c1 (Fin 0) = Inr (pixel img h h)"
      using col [OF c] by (simp add: round_fin_0)
    then show ?thesis
      by (simp add: interpolate_color_0 [OF assms(3,4)])
  qed
  have 3: "pixel img x y = c1"
    if "0 \<le> x \<and> x < int n \<and> 0 \<le> y \<and> y < int n \<and>
        math_sqrt ((x - h) ^ 2 + (y - h) ^ 2) = Inr (Fin d) \<and> m \<le> d" for x y d
  proof -
    from that have r: "0 \<le> x \<and> x < int n \<and> 0 \<le> y \<and> y < int n"
      by simp
    from that sq [OF r] have "d = dv x y" "m \<le> d"
      by simp_all
    then have "1 \<le> dv x y / m"
      using mpos by simp
    then have "round_fin 1 \<le> round_fin (dv x y / m)"
      by (rule round_fin_mono)
    then have "min (round_fin (dv x y / m)) 1 = 1"
      by (simp add: round_fin_1)
    then have "interpolate_color c0 c1 (Fin 1) = Inr (pixel img x y)"
      using col [OF r] by simp
    then show ?thesis
      by (simp add: interpolate_color_1 [OF assms(3,4)])
  qed
  have 4: "r \<le> r'"
    if "0 \<le> x \<and> x < int n \<and> 0 \<le> y \<and> y < int n \<and>
        0 \<le> x' \<and> x' < int n \<and> 0 \<le> y' \<and> y' < int n \<and>
        (x - h) ^ 2 + (y - h) ^ 2 \<le> (x' - h) ^ 2 + (y' - h) ^ 2 \<and>
        gradient_ratio n (Fin m) x y = Inr (Fin r) \<and>
        gradient_ratio n (Fin m) x' y' = Inr (Fin r')" for x y x' y' r r'
  proof -
    from that have a: "0 \<le> x \<and> x < int n \<and> 0 \<le> y \<and> y < int n"
      and b: "0 \<le> x' \<and> x' < int n \<and> 0 \<le> y' \<and> y' < int n"
      and le: "(x - h) ^ 2 + (y - h) ^ 2 \<le> (x' - h) ^ 2 + (y' - h) ^ 2"
      by simp_all
    from that ratio [OF a] ratio [OF b]
    have r: "r = min (round_fin (dv x y / m)) 1" "r' = min (round_fin (dv x' y' / m)) 1"
      by simp_all
    have "(of_int ((x - h) ^ 2 + (y - h) ^ 2) :: rat) \<le> of_int ((x' - h) ^ 2 + (y' - h) ^ 2)"
      using le by (simp only: of_int_le_iff)
    then have "round_fin (of_int ((x - h) ^ 2 + (y - h) ^ 2))
        \<le> round_fin (of_int ((x' - h) ^ 2 + (y' - h) ^ 2))"
      by (rule round_fin_mono)
    moreover have "0 \<le> round_fin (of_int ((x - h) ^ 2 + (y - h) ^ 2))"
      by (intro round_fin_nonneg) simp
    ultimately have "sqrt_approx (round_fin (of_int ((x - h) ^ 2 + (y - h) ^ 2)))
        \<le> sqrt_approx (round_fin (of_int ((x' - h) ^ 2 + (y' - h) ^ 2)))"
      by (intro sqrt_approx_mono)
    then have "dv x y \<le> dv x' y'"
      unfolding dv_def by (rule round_fin_mono)
    then have "dv x y / m \<le> dv x' y' / m"
      using mpos by (simp add: divide_right_mono)
    then have "round_fin (dv x y / m) \<le> round_fin (dv x' y' / m)"
      by (rule round_fin_mono)
    then show ?thesis
      unfolding r by (simp add: min_def)
  qed
  from m(1) g 1 2 3 4 show ?thesis
    unfolding h_def by blast
qed

theorem create_radial_gradient_spec_witness:
  "\<exists>img. create_radial_gradient 2 (60, 60, 60) (30, 30, 30) = Inr img \<and> width img = 2 \<and>
     height img = 2 \<and> pixel img 1 1 = (60, 60, 60)"
proof -
  have "(2::nat) \<le> 2" "(2::nat) < 2 ^ 500" "valid_color (60, 60, 60)" "valid_color (30, 30, 30)"
    by (simp_all add: valid_color_def)
  from create_radial_gradient_spec [OF this] show ?thesis
    by auto
qed

theorem create_radial_gradient_counterexample:
  "create_radial_gradient 1 (60, 60, 60) (30, 30, 30) = Inl ZeroDivisionError \<and>
   pixel_of (create_radial_gradient 6 (0, 0, 0) (255, 255, 255)) 0 0 = Some (254, 254, 254)"
proof
  have "py_range 1 = [0]"
    by (simp add: py_range_def)
  then show "create_radial_gradient 1 (60, 60, 60) (30, 30, 30) = Inl ZeroDivisionError"
    unfolding create_radial_gradient_def max_dist_of_1
    by (simp add: gradient_pixel_def corner_1 ebind_Inr ebind_Inl del: One_nat_def)
next
  have "(2::nat) \<le> 6" "(6::nat) < 2 ^ 500" "valid_color (0, 0, 0)" "valid_color (255, 255, 255)"
    by (simp_all add: valid_color_def)
  from create_radial_gradient_pixels [OF this]
  obtain m img where m: "max_dist_of 6 = Inr (Fin m)"
    and g: "create_radial_gradient 6 (0, 0, 0) (255, 255, 255) = Inr img" "width img = 6" "height img = 6"
    and px: "\<And>x y. 0 \<le> x \<and> x < int 6 \<and> 0 \<le> y \<and> y < int 6 \<Longrightarrow>
              gradient_color 6 (0, 0, 0) (255, 255, 255) (Fin m) x y = Inr (pixel img x y)"
    by blast
  from m have "m = 2388394377197165 / 562949953421312"
    by (simp add: max_dist_of_6)
  with px [of 0 0] have "pixel img 0 0 = (254, 254, 254)"
    by (simp add: corner_6)
  then show "pixel_of (create_radial_gradient 6 (0, 0, 0) (255, 255, 255)) 0 0 = Some (254, 254, 254)"
    by (simp add: pixel_of_def g in_image_def)
qed

section \<open>The three variants\<close>

lemma SIZE_bounds: "2 \<le> SIZE" "SIZE < 2 ^ 500"
  by (simp_all add: SIZE_def)

lemma tinted_inset_colour:
  "interpolate_color (180, 180, 180) (129, 140, 248) (rnd (3 / 10)) = Inr (164, 168, 200)"
  by code_simp

lemma generate_icon_ok:
  assumes "valid_color c0" and "valid_color c1" and "valid_color p" and "valid_color a"
  shows "\<exists>bg img. create_radial_gradient SIZE c0 c1 = Inr bg \<and> width bg = SIZE \<and> height bg = SIZE \<and>
           draw_dumbbell ell bg p a = Inr img \<and> width img = SIZE \<and> height img = SIZE \<and>
           ebind (create_radial_gradient SIZE c0 c1) (\<lambda>img. draw_dumbbell ell img p a) = Inr img"
proof -
  obtain bg where bg: "create_radial_gradient SIZE c0 c1 = Inr bg" "width bg = SIZE" "height bg = SIZE"
    using create_radial_gradient_pixels [OF SIZE_bounds assms(1,2)] by blast
  from draw_dumbbell_steps [OF assms(3,4), of ell bg] obtain c1' c2' img3 where
    bar: "same_outside (312, 482, 713, 542)
             (paint (rounded_cover ell (312, 392, 392, 632) 20) c1'
               (paint (rounded_cover ell (292, 372, 412, 652) 30) p bg)) img3"
    and res: "draw_dumbbell ell bg p a =
             Inr (paint (rounded_cover ell (632, 392, 712, 632) 20) c2'
               (paint (rounded_cover ell (612, 372, 732, 652) 30) a img3))"
    by blast
  from bar have "width img3 = width bg" "height img3 = height bg"
    by (simp_all add: same_outside_def width_paint height_paint)
  with bg res show ?thesis
    by (simp add: ebind_Inr width_paint height_paint)
qed

text \<open>
  C1. The tinted icon is not grayscale: whatever the ellipse rasteriser (as long as it stays
  inside its box), the pixel at column 350 and row 400, inside the inset of the left weight,
  is \<open>(164, 168, 200)\<close>, the gray \<open>(180, 180, 180)\<close> moved 30 percent of the way to the
  indigo \<^verbatim>\<open>COLORS['primary_light']\<close>.
\<close>

theorem generate_tinted_icon_inset_pixel:
  assumes "ell_in_box ell"
  shows "pixel_of (generate_tinted_icon ell) 350 400 = Some (164, 168, 200)"
proof -
  have v: "valid_color (60, 60, 60)" "valid_color (30, 30, 30)"
    "valid_color (180, 180, 180)" "valid_color (220, 220, 220)"
    by (simp_all add: valid_color_def)
  obtain bg where bg: "create_radial_gradient SIZE (60, 60, 60) (30, 30, 30) = Inr bg"
    "width bg = SIZE" "height bg = SIZE"
    using generate_icon_ok [OF v] by blast
  have i: "in_image bg 350 400"
    by (simp add: in_image_def bg SIZE_def)
  have r: "rounded_cover ell (312, 392, 392, 632) 20 350 400"
    by (simp add: rounded_cover_def in_box_def)
  have "pixel_of (draw_dumbbell ell bg (180, 180, 180) (220, 220, 220)) 350 400 = Some (164, 168, 200)"
    using left_inset_pixel [OF assms v(3,4) i r] by (simp add: tinted_inset_colour)
  then show ?thesis
    by (simp add: generate_tinted_icon_def bg ebind_Inr)
qed

theorem generate_tinted_icon_inset_pixel_witness:
  "ell_in_box inscribed \<and> pixel_of (generate_tinted_icon inscribed) 350 400 = Some (164, 168, 200)"
  using generate_tinted_icon_inset_pixel [OF inscribed_in_box] inscribed_in_box by simp

section \<open>The script\<close>

lemma generators_ok:
  "\<exists>m dk t. generate_main_icon ell = Inr m \<and> generate_dark_icon ell = Inr dk \<and>
     generate_tinted_icon ell = Inr t"
proof -
  have v: "valid_color (COLORS Card)" "valid_color (COLORS Background)"
    "valid_color (COLORS Primary)" "valid_color (COLORS Accent)"
    "valid_color (20, 30, 50)" "valid_color (10, 15, 30)" "valid_color (COLORS Primary_light)"
    "valid_color (60, 60, 60)" "valid_color (30, 30, 30)"
    "valid_color (180, 180, 180)" "valid_color (220, 220, 220)"
    by (simp_all add: valid_color_def)
  from generate_icon_ok [OF v(1,2,3,4), of ell] obtain m where "generate_main_icon ell = Inr m"
    unfolding generate_main_icon_def by blast
  moreover from generate_icon_ok [OF v(5,6,7,4), of ell] obtain dk where "generate_dark_icon ell = Inr dk"
    unfolding generate_dark_icon_def by blast
  moreover from generate_icon_ok [OF v(8,9,10,11), of ell] obtain t where "generate_tinted_icon ell = Inr t"
    unfolding generate_tinted_icon_def by blast
  ultimately show ?thesis
    by blast
qed

lemma wbind_Inr: "wbind (w, Inr x) f = f x w"
  by (simp add: wbind_def)

lemma wbind_Inl: "wbind (w, Inl e) f = (w, Inl e)"
  by (simp add: wbind_def)

lemma wbind_print: "wbind (py_print line w) f = f () (w\<lparr>stdout := stdout w @ [line]\<rparr>)"
  by (simp add: wbind_def py_print_def)

lemma main_run:
  assumes "main ell encode e w = (w', r)"
  shows "\<exists>m dk t. generate_main_icon ell = Inr m \<and> generate_dark_icon ell = Inr dk \<and>
     generate_tinted_icon ell = Inr t \<and>
     (makedirs_fails e \<longrightarrow>
        r = Inl OSError \<and> files w' = files w \<and>
        stdout w' = stdout w @ [''Output directory: '' @ show_path (output_dir e)]) \<and>
     (\<not> makedirs_fails e \<longrightarrow>
       (\<forall>l. write_result_of e (output_dir e @ [''AppIcon.png'']) = Write_failed l \<longrightarrow>
          r = Inl OSError \<and>
          files w' = (files w)(output_dir e @ [''AppIcon.png''] := l) \<and>
          stdout w' = stdout w @ [''Output directory: '' @ show_path (output_dir e),
            ''Generating main icon...'']) \<and>
       (\<forall>l. write_result_of e (output_dir e @ [''AppIcon.png'']) = Written \<and>
          write_result_of e (output_dir e @ [''AppIcon-Dark.png'']) = Write_failed l \<longrightarrow>
          r = Inl OSError \<and>
          files w' = (files w)(output_dir e @ [''AppIcon.png''] := Some (encode m),
            output_dir e @ [''AppIcon-Dark.png''] := l) \<and>
          files w' (output_dir e @ [''AppIcon.png'']) = Some (encode m) \<and>
          stdout w' = stdout w @ [''Output directory: '' @ show_path (output_dir e),
            ''Generating main icon...'', ''  Saved AppIcon.png'',
            ''Generating dark mode icon...'']) \<and>
       (\<forall>l. write_result_of e (output_dir e @ [''AppIcon.png'']) = Written \<and>
          write_result_of e (output_dir e @ [''AppIcon-Dark.png'']) = Written \<and>
          write_result_of e (output_dir e @ [''AppIcon-Tinted.png'']) = Write_failed l \<longrightarrow>
          r = Inl OSError \<and>
          files w' = (files w)(output_dir e @ [''AppIcon.png''] := Some (encode m),
            output_dir e @ [''AppIcon-Dark.png''] := Some (encode dk),
            output_dir e @ [''AppIcon-Tinted.png''] := l) \<and>
          files w' (output_dir e @ [''AppIcon.png'']) = Some (encode m) \<and>
          files w' (output_dir e @ [''AppIcon-Dark.png'']) = Some (encode dk) \<and>
          stdout w' = stdout w @ [''Output directory: '' @ show_path (output_dir e),
            ''Generating main icon...'', ''  Saved AppIcon.png'',
            ''Generating dark mode icon...'', ''  Saved AppIcon-Dark.png'',
            ''Generating tinted icon...'']) \<and>
       (write_result_of e (output_dir e @ [''AppIcon.png'']) = Written \<and>
          write_result_of e (output_dir e @ [''AppIcon-Dark.png'']) = Written \<and>
          write_result_of e (output_dir e @ [''AppIcon-Tinted.png'']) = Written \<longrightarrow>
          r = Inr () \<and>
          files w' = (files w)(output_dir e @ [''AppIcon.png''] := Some (encode m),
            output_dir e @ [''AppIcon-Dark.png''] := Some (encode dk),
            output_dir e @ [''AppIcon-Tinted.png''] := Some (encode t)) \<and>
          files w' (output_dir e @ [''AppIcon.png'']) = Some (encode m) \<and>
          files w' (output_dir e @ [''AppIcon-Dark.png'']) = Some (encode dk) \<and>
          files w' (output_dir e @ [''AppIcon-Tinted.png'']) = Some (encode t) \<and>
          stdout w' = stdout w @ [''Output directory: '' @ show_path (output_dir e),
            ''Generating main icon...'', ''  Saved AppIcon.png'',
            ''Generating dark mode icon...'', ''  Saved AppIcon-Dark.png'',
            ''Generating tinted icon...'', ''  Saved AppIcon-Tinted.png'',
            CHR 0x0A # ''All icons generated successfully!'',
            ''Icons saved to: '' @ show_path (output_dir e)]))"
proof -
  obtain m dk t where g: "generate_main_icon ell = Inr m" "generate_dark_icon ell = Inr dk"
    "generate_tinted_icon ell = Inr t"
    using generators_ok by blast
  define d where "d = output_dir e"
  define out where "out = ''Output directory: '' @ show_path d"
  define fin where "fin = ''Icons saved to: '' @ show_path d"
  have main: "(w', r) =
     wbind (makedirs e d (w\<lparr>stdout := stdout w @ [out]\<rparr>)) (\<lambda>_ w.
     wbind (image_save encode e m (d @ [''AppIcon.png''])
        (w\<lparr>stdout := stdout w @ [''Generating main icon...'']\<rparr>)) (\<lambda>_ w.
     wbind (image_save encode e dk (d @ [''AppIcon-Dark.png''])
        (w\<lparr>stdout := stdout w @ [''  Saved AppIcon.png'', ''Generating dark mode icon...'']\<rparr>)) (\<lambda>_ w.
     wbind (image_save encode e t (d @ [''AppIcon-Tinted.png''])
        (w\<lparr>stdout := stdout w @ [''  Saved AppIcon-Dark.png'', ''Generating tinted icon...'']\<rparr>)) (\<lambda>_ w.
     (w\<lparr>stdout := stdout w @ [''  Saved AppIcon-Tinted.png'',
         CHR 0x0A # ''All icons generated successfully!'', fin]\<rparr>, Inr ())))))"
    unfolding assms [symmetric] main_def g wbind_print wbind_Inr d_def out_def fin_def
    by (simp add: py_print_def)
  have "makedirs_fails e \<longrightarrow>
        r = Inl OSError \<and> files w' = files w \<and> stdout w' = stdout w @ [out]"
    using main by (auto simp add: makedirs_def wbind_Inl)
  moreover have "\<not> makedirs_fails e \<longrightarrow>
       (\<forall>l. write_result_of e (d @ [''AppIcon.png'']) = Write_failed l \<longrightarrow>
          r = Inl OSError \<and>
          files w' = (files w)(d @ [''AppIcon.png''] := l) \<and>
          stdout w' = stdout w @ [out, ''Generating main icon...''])"
    using main by (auto simp add: makedirs_def image_save_def wbind_Inl wbind_Inr)
  moreover have "\<not> makedirs_fails e \<longrightarrow>
       (\<forall>l. write_result_of e (d @ [''AppIcon.png'']) = Written \<and>
          write_result_of e (d @ [''AppIcon-Dark.png'']) = Write_failed l \<longrightarrow>
          r = Inl OSError \<and>
          files w' = (files w)(d @ [''AppIcon.png''] := Some (encode m),
            d @ [''AppIcon-Dark.png''] := l) \<and>
          files w' (d @ [''AppIcon.png'']) = Some (encode m) \<and>
          stdout w' = stdout w @ [out,
            ''Generating main icon...'', ''  Saved AppIcon.png'',
            ''Generating dark mode icon...''])"
    using main by (auto simp add: makedirs_def image_save_def wbind_Inl wbind_Inr)
  moreover have "\<not> makedirs_fails e \<longrightarrow>
       (\<forall>l. write_result_of e (d @ [''AppIcon.png'']) = Written \<and>
          write_result_of e (d @ [''AppIcon-Dark.png'']) = Written \<and>
          write_result_of e (d @ [''AppIcon-Tinted.png'']) = Write_failed l \<longrightarrow>
          r = Inl OSError \<and>
          files w' = (files w)(d @ [''AppIcon.png''] := Some (encode m),
            d @ [''AppIcon-Dark.png''] := Some (encode dk),
            d @ [''AppIcon-Tinted.png''] := l) \<and>
          files w' (d @ [''AppIcon.png'']) = Some (encode m) \<and>
          files w' (d @ [''AppIcon-Dark.png'']) = Some (encode dk) \<and>
          stdout w' = stdout w @ [out,
            ''Generating main icon...'', ''  Saved AppIcon.png'',
            ''Generating dark mode icon...'', ''  Saved AppIcon-Dark.png'',
            ''Generating tinted icon...''])"
    using main by (auto simp add: makedirs_def image_save_def wbind_Inl wbind_Inr)
  moreover have "\<not> makedirs_fails e \<longrightarrow>
       (write_result_of e (d @ [''AppIcon.png'']) = Written \<and>
          write_result_of e (d @ [''AppIcon-Dark.png'']) = Written \<and>
          write_result_of e (d @ [''AppIcon-Tinted.png'']) = Written \<longrightarrow>
          r = Inr () \<and>
          files w' = (files w)(d @ [''AppIcon.png''] := Some (encode m),
            d @ [''AppIcon-Dark.png''] := Some (encode dk),
            d @ [''AppIcon-Tinted.png''] := Some (encode t)) \<and>
          files w' (d @ [''AppIcon.png'']) = Some (encode m) \<and>
          files w' (d @ [''AppIcon-Dark.png'']) = Some (encode dk) \<and>
          files w' (d @ [''AppIcon-Tinted.png'']) = Some (encode t) \<and>
          stdout w' = stdout w @ [out,
            ''Generating main icon...'', ''  Saved AppIcon.png'',
            ''Generating dark mode icon...'', ''  Saved AppIcon-Dark.png'',
            ''Generating tinted icon...'', ''  Saved AppIcon-Tinted.png'',
            CHR 0x0A # ''All icons generated successfully!'', fin])"
    using main by (auto simp add: makedirs_def image_save_def wbind_Inl wbind_Inr)
  ultimately show ?thesis
    using g unfolding d_def out_def fin_def by blast
qed

lemma output_dir_example:
  "output_dir example_env = [''repo'', ''gymtrackpromax'', ''Assets.xcassets'', ''AppIcon.appiconset'']"
  by (simp add: output_dir_def example_env_def dirname_def)

text \<open>
  C8. \<^verbatim>\<open>main\<close> generates and saves the three icons one after the other, as
  \<^verbatim>\<open>AppIcon.png\<close>, \<^verbatim>\<open>AppIcon-Dark.png\<close> and \<^verbatim>\<open>AppIcon-Tinted.png\<close>. The three
  generations cannot fail. A run ends in one of five ways, decided by the first step of the
  file system that fails: the creation of the directory, the first, the second or the third
  save, or none. A failure is raised out of \<^verbatim>\<open>main\<close> as it is; the lines printed are those
  before the failing step; the files saved before hold the encoded icons; the path of
  the failing save holds what the failed write left there; no later path is touched.
\<close>

theorem main_sequential:
  assumes "main ell encode e w = (w', r)"
  shows "\<exists>m dk t. generate_main_icon ell = Inr m \<and> generate_dark_icon ell = Inr dk \<and>
     generate_tinted_icon ell = Inr t \<and>
     (makedirs_fails e \<longrightarrow>
        r = Inl OSError \<and> files w' = files w \<and>
        stdout w' = stdout w @ [''Output directory: '' @ show_path (output_dir e)]) \<and>
     (\<not> makedirs_fails e \<longrightarrow>
       (\<forall>l. write_result_of e (output_dir e @ [''AppIcon.png'']) = Write_failed l \<longrightarrow>
          r = Inl OSError \<and>
          files w' = (files w)(output_dir e @ [''AppIcon.png''] := l) \<and>
          stdout w' = stdout w @ [''Output directory: '' @ show_path (output_dir e),
            ''Generating main icon...'']) \<and>
       (\<forall>l. write_result_of e (output_dir e @ [''AppIcon.png'']) = Written \<and>
          write_result_of e (output_dir e @ [''AppIcon-Dark.png'']) = Write_failed l \<longrightarrow>
          r = Inl OSError \<and>
          files w' = (files w)(output_dir e @ [''AppIcon.png''] := Some (encode m),
            output_dir e @ [''AppIcon-Dark.png''] := l) \<and>
          files w' (output_dir e @ [''AppIcon.png'']) = Some (encode m) \<and>
          stdout w' = stdout w @ [''Output directory: '' @ show_path (output_dir e),
            ''Generating main icon...'', ''  Saved AppIcon.png'',
            ''Generating dark mode icon...'']) \<and>
       (\<forall>l. write_result_of e (output_dir e @ [''AppIcon.png'']) = Written \<and>
          write_result_of e (output_dir e @ [''AppIcon-Dark.png'']) = Written \<and>
          write_result_of e (output_dir e @ [''AppIcon-Tinted.png'']) = Write_failed l \<longrightarrow>
          r = Inl OSError \<and>
          files w' = (files w)(output_dir e @ [''AppIcon.png''] := Some (encode m),
            output_dir e @ [''AppIcon-Dark.png''] := Some (encode dk),
            output_dir e @ [''AppIcon-Tinted.png''] := l) \<and>
          files w' (output_dir e @ [''AppIcon.png'']) = Some (encode m) \<and>
          files w' (output_dir e @ [''AppIcon-Dark.png'']) = Some (encode dk) \<and>
          stdout w' = stdout w @ [''Output directory: '' @ show_path (output_dir e),
            ''Generating main icon...'', ''  Saved AppIcon.png'',
            ''Generating dark mode icon...'', ''  Saved AppIcon-Dark.png'',
            ''Generating tinted icon...'']) \<and>
       (write_result_of e (output_dir e @ [''AppIcon.png'']) = Written \<and>
          write_result_of e (output_dir e @ [''AppIcon-Dark.png'']) = Written \<and>
          write_result_of e (output_dir e @ [''AppIcon-Tinted.png'']) = Written \<longrightarrow>
          r = Inr () \<and>
          files w' = (files w)(output_dir e @ [''AppIcon.png''] := Some (encode m),
            output_dir e @ [''AppIcon-Dark.png''] := Some (encode dk),
            output_dir e @ [''AppIcon-Tinted.png''] := Some (encode t)) \<and>
          files w' (output_dir e @ [''AppIcon.png'']) = Some (encode m) \<and>
          files w' (output_dir e @ [''AppIcon-Dark.png'']) = Some (encode dk) \<and>
          files w' (output_dir e @ [''AppIcon-Tinted.png'']) = Some (encode t) \<and>
          stdout w' = stdout w @ [''Output directory: '' @ show_path (output_dir e),
            ''Generating main icon...'', ''  Saved AppIcon.png'',
            ''Generating dark mode icon...'', ''  Saved AppIcon-Dark.png'',
            ''Generating tinted icon...'', ''  Saved AppIcon-Tinted.png'',
            CHR 0x0A # ''All icons generated successfully!'',
            ''Icons saved to: '' @ show_path (output_dir e)]))"
  using assms by (rule main_run)

theorem main_sequential_witness:
  "\<exists>w' m. generate_main_icon inscribed = Inr m \<and>
     main inscribed centre_encoding example_env empty_world = (w', Inl OSError) \<and>
     files w' [''repo'', ''gymtrackpromax'', ''Assets.xcassets'', ''AppIcon.appiconset'',
       ''AppIcon.png''] = Some (centre_encoding m) \<and>
     files w' [''repo'', ''gymtrackpromax'', ''Assets.xcassets'', ''AppIcon.appiconset'',
       ''AppIcon-Dark.png''] = None \<and>
     files w' [''repo'', ''gymtrackpromax'', ''Assets.xcassets'', ''AppIcon.appiconset'',
       ''AppIcon-Tinted.png''] = None \<and>
     stdout w' = [''Output directory: /repo/gymtrackpromax/Assets.xcassets/AppIcon.appiconset'',
       ''Generating main icon...'', ''  Saved AppIcon.png'', ''Generating dark mode icon...'']"
proof -
  obtain w' r where m: "main inscribed centre_encoding example_env empty_world = (w', r)"
    by (cases "main inscribed centre_encoding example_env empty_world")
  have e: "\<not> makedirs_fails example_env"
    "write_result_of example_env (output_dir example_env @ [''AppIcon.png'']) = Written"
    "write_result_of example_env (output_dir example_env @ [''AppIcon-Dark.png'']) = Write_failed None"
    by (simp_all add: example_env_def)
  from main_sequential [OF m, of ] e obtain m' where
    "generate_main_icon inscribed = Inr m'" "r = Inl OSError"
    "files w' = (files empty_world)(output_dir example_env @ [''AppIcon.png''] := Some (centre_encoding m'),
            output_dir example_env @ [''AppIcon-Dark.png''] := None)"
    "stdout w' = stdout empty_world @ [''Output directory: '' @ show_path (output_dir example_env),
            ''Generating main icon...'', ''  Saved AppIcon.png'',
            ''Generating dark mode icon...'']"
    by blast
  with m show ?thesis
    by (simp add: output_dir_example empty_world_def show_path_def)
qed

end
